theory Spec2Isabelle
  imports Main
begin

section \<open>Data model of \<^verbatim>\<open>src/context.js\<close>\<close>

text \<open>
  Contexts and observers are JavaScript objects; the model identifies an object with a
  natural number (its identity).  A context's identity is the number handed out by
  \<^verbatim>\<open>assignID\<close> at construction.
\<close>

type_synonym ctx = nat
type_synonym obs = nat

datatype ContextState = Active | Ending | Ended

datatype TraversingAxis =
    Self | Root | Child | Sibling | Ancestor | Descendant | DescendantReverse
  | SelfOrChild | SelfOrSibling | SelfOrAncestor | SelfOrDescendant
  | SelfOrDescendantReverse | SelfSiblingOrAncestor

text \<open>A JavaScript argument: \<^verbatim>\<open>undefined\<close>, \<^verbatim>\<open>null\<close> or an object reference.\<close>

datatype jsval = Undefined | Null | Obj nat

datatype error = Error string | TypeError string

text \<open>
  The closure variables and transient properties of one \<^verbatim>\<open>Context\<close> instance.
  \<^item> \<open>observers\<close> is \<^verbatim>\<open>_observers\<close>: \<open>None\<close> stands for \<^verbatim>\<open>undefined\<close> (never
    observed) and for \<^verbatim>\<open>null\<close> (after \<^verbatim>\<open>end\<close>); the source treats both alike
    (\<^verbatim>\<open>||\<close>, \<^verbatim>\<open>&&\<close>, and a property access on either raises).
  \<^item> \<open>axis\<close> is the transient property \<^verbatim>\<open>this[Axis]\<close>.
  \<^item> \<open>end_override\<close> is \<open>Some p\<close> when the instance was extended by \<^verbatim>\<open>p.newChild()\<close>
    with the overriding \<^verbatim>\<open>end\<close>; that method closes over \<open>p\<close>'s \<^verbatim>\<open>_children\<close>
    and \<open>p\<close>'s \<^verbatim>\<open>makeNotifier\<close>.
  \<^item> \<open>provided\<close> collects the objects registered by \<^verbatim>\<open>$provide(this, object)\<close>.
\<close>

record Context =
  parent :: "ctx option"
  state :: ContextState
  children :: "ctx list"
  observers :: "obs list option"
  axis :: "TraversingAxis option"
  end_override :: "ctx option"
  provided :: "nat list"

record world =
  ctxs :: "ctx \<Rightarrow> Context"
  next_id :: nat

datatype notification = contextEnding | contextEnded | childContextEnding | childContextEnded

text \<open>
  What a run leaves behind: every assignment to \<^verbatim>\<open>_state\<close> and every observer method
  invoked by a notifier, in program order.
\<close>

datatype event = StateSet ctx ContextState | Notified obs notification ctx

definition upd :: "world \<Rightarrow> ctx \<Rightarrow> (Context \<Rightarrow> Context) \<Rightarrow> world" where
  "upd w c f = w\<lparr>ctxs := (ctxs w)(c := f (ctxs w c))\<rparr>"

abbreviation st :: "world \<Rightarrow> ctx \<Rightarrow> ContextState" where
  "st w c \<equiv> state (ctxs w c)"

abbreviation kids :: "world \<Rightarrow> ctx \<Rightarrow> ctx list" where
  "kids w c \<equiv> children (ctxs w c)"

subsection \<open>Array helpers\<close>

text \<open>\<^verbatim>\<open>Array.prototype.indexOf\<close>: the first index holding the element, or \<open>-1\<close>.\<close>

fun indexOf :: "'a list \<Rightarrow> 'a \<Rightarrow> int" where
  "indexOf [] x = - 1"
| "indexOf (y # ys) x =
     (if y = x then 0 else (let i = indexOf ys x in if i < 0 then - 1 else i + 1))"

text \<open>\<^verbatim>\<open>array.splice(index, 1)\<close> for a non-negative index.\<close>

definition splice1 :: "'a list \<Rightarrow> int \<Rightarrow> 'a list" where
  "splice1 xs i = take (nat i) xs @ drop (Suc (nat i)) xs"

subsection \<open>Construction\<close>

text \<open>
  The constructor body, lines 85--94: a fresh identity, the given parent, state
  \<^verbatim>\<open>Active\<close>, no children, \<^verbatim>\<open>_observers\<close> undefined.
\<close>

definition Context_new :: "world \<Rightarrow> ctx option \<Rightarrow> world \<times> ctx" where
  "Context_new w p =
     (let k = next_id w in
      (w\<lparr>ctxs := (ctxs w)(k := \<lparr>parent = p, state = Active, children = [],
                                observers = None, axis = None, end_override = None,
                                provided = []\<rparr>),
         next_id := Suc k\<rparr>, k))"

definition ensureActive :: "world \<Rightarrow> ctx \<Rightarrow> error option" where
  "ensureActive w c =
     (if st w c \<noteq> Active then Some (Error ''The context has already ended.'') else None)"

text \<open>\<^verbatim>\<open>newChild\<close>, lines 138--153.\<close>

definition newChild :: "world \<Rightarrow> ctx \<Rightarrow> error + world \<times> ctx" where
  "newChild w c =
     (case ensureActive w c of
        Some e \<Rightarrow> Inl e
      | None \<Rightarrow>
          (let (w1, childContext) = Context_new w (Some c);
               w2 = upd w1 childContext (\<lambda>x. x\<lparr>end_override := Some c\<rparr>);
               w3 = upd w2 c (\<lambda>x. x\<lparr>children := children x @ [childContext]\<rparr>)
           in Inr (w3, childContext)))"

subsection \<open>Storing and observing\<close>

text \<open>\<^verbatim>\<open>$isSomething(x)\<close> is \<^verbatim>\<open>x != null\<close>; \<^verbatim>\<open>$isNothing\<close> is its negation.\<close>

fun isSomething :: "jsval \<Rightarrow> bool" where
  "isSomething Undefined = False"
| "isSomething Null = False"
| "isSomething (Obj a) = True"

definition isNothing :: "jsval \<Rightarrow> bool" where
  "isNothing v = (\<not> isSomething v)"

text \<open>
  Modelled from the spec: \<^verbatim>\<open>$provide\<close> belongs to the callback library; the context
  only needs ``register a value so resolution of matching requests returns it''.
\<close>

fun provide :: "world \<Rightarrow> ctx \<Rightarrow> jsval \<Rightarrow> world" where
  "provide w c (Obj a) = upd w c (\<lambda>x. x\<lparr>provided := provided x @ [a]\<rparr>)"
| "provide w c v = w"

text \<open>\<^verbatim>\<open>store\<close>, lines 161--166; the second component is the returned \<^verbatim>\<open>this\<close>.\<close>

definition store :: "world \<Rightarrow> ctx \<Rightarrow> jsval \<Rightarrow> world \<times> ctx" where
  "store w c object = ((if isSomething object then provide w c object else w), c)"

text \<open>
  \<^verbatim>\<open>observe\<close>, lines 213--223.  The result is the new world and whether an unsubscribe
  function was returned (\<open>None\<close>: the bare \<^verbatim>\<open>return\<close>; \<open>Some ob\<close>: the closure over
  observer \<open>ob\<close>, run by \<open>unsubscribe\<close> below).
\<close>

definition observe :: "world \<Rightarrow> ctx \<Rightarrow> jsval \<Rightarrow> error + world \<times> obs option" where
  "observe w c observer =
     (case ensureActive w c of
        Some e \<Rightarrow> Inl e
      | None \<Rightarrow>
          if isNothing observer then Inr (w, None)
          else
            (case observer of
               Obj ob \<Rightarrow>
                 Inr (upd w c (\<lambda>x. x\<lparr>observers :=
                        Some ((case observers x of None \<Rightarrow> [] | Some os \<Rightarrow> os) @ [ob])\<rparr>),
                      Some ob)
             | _ \<Rightarrow> Inr (w, None)))"

text \<open>
  The closure returned by \<^verbatim>\<open>observe\<close>, lines 217--222.  \<^verbatim>\<open>_observers.indexOf\<close> on
  \<^verbatim>\<open>null\<close> is a \<^verbatim>\<open>TypeError\<close>.
\<close>

definition unsubscribe :: "world \<Rightarrow> ctx \<Rightarrow> obs \<Rightarrow> error + world" where
  "unsubscribe w c ob =
     (case observers (ctxs w c) of
        None \<Rightarrow> Inl (TypeError ''Cannot read properties of null (reading indexOf)'')
      | Some os \<Rightarrow>
          (let index = indexOf os ob in
           if index \<ge> 0
           then Inr (upd w c (\<lambda>x. x\<lparr>observers := Some (splice1 os index)\<rparr>))
           else Inr w))"

subsection \<open>Notification\<close>

text \<open>
  \<^verbatim>\<open>makeNotifier\<close>, lines 279--281: the notifier holds
  \<^verbatim>\<open>_observers && _observers.slice()\<close>, a copy taken at the moment of the call.
\<close>

definition makeNotifier :: "world \<Rightarrow> ctx \<Rightarrow> obs list option" where
  "makeNotifier w c = observers (ctxs w c)"

text \<open>
  Modelled from the spec: the \<^verbatim>\<open>Protocol\<close> proxy of the core library.  Calling a
  lifecycle method on the notifier invokes that method on every observer of the snapshot,
  in snapshot order.  \<open>notify\<close> is the fan-out over observers whose methods do not call
  back into the contexts (the design's convention): it records the invocations.  The
  fan-out over observers that do call back is \<open>notify_re\<close> below.
\<close>

fun notify :: "obs list option \<Rightarrow> notification \<Rightarrow> ctx \<Rightarrow> event list" where
  "notify None m c = []"
| "notify (Some os) m c = map (\<lambda>ob. Notified ob m c) os"

subsection \<open>Ending and unwinding\<close>

text \<open>
  \<^verbatim>\<open>end\<close> (lines 259--269), \<^verbatim>\<open>unwind\<close> (lines 249--254) with its \<^verbatim>\<open>for..of\<close> loop
  over the copy returned by the \<^verbatim>\<open>children\<close> getter, and the \<^verbatim>\<open>end\<close> that
  \<^verbatim>\<open>newChild\<close> installs on a child (lines 141--149).  \<open>end_method\<close> is the call
  \<^verbatim>\<open>x.end()\<close>: it runs the override when the instance carries one.  The recursion
  follows the object graph, so the functions take fuel, spent by one on each nested
  \<^verbatim>\<open>unwind\<close>; \<open>None\<close> means the fuel ran out.  These four are the methods as they run
  when no observer calls back during a notification; the next subsection has them with
  observers that do.
\<close>

fun end_base :: "nat \<Rightarrow> world \<Rightarrow> ctx \<Rightarrow> (world \<times> event list) option"
and unwind :: "nat \<Rightarrow> world \<Rightarrow> ctx \<Rightarrow> (world \<times> event list \<times> ctx) option"
and for_children :: "nat \<Rightarrow> world \<Rightarrow> ctx list \<Rightarrow> (world \<times> event list) option"
and end_method :: "nat \<Rightarrow> world \<Rightarrow> ctx \<Rightarrow> (world \<times> event list) option"
where
  "end_base 0 w c = None"
| "end_base (Suc n) w c =
     (if st w c = Active then
        (let notifier = makeNotifier w c;
             w1 = upd w c (\<lambda>x. x\<lparr>state := Ending\<rparr>);
             t1 = notify notifier contextEnding c
         in case unwind n w1 c of
              None \<Rightarrow> None
            | Some (w2, t2, this) \<Rightarrow>
                (let w3 = upd w2 c (\<lambda>x. x\<lparr>state := Ended\<rparr>);
                     t3 = notify notifier contextEnded c;
                     w4 = upd w3 c (\<lambda>x. x\<lparr>observers := None\<rparr>)
                 in Some (w4, [StateSet c Ending] @ t1 @ t2 @ [StateSet c Ended] @ t3)))
      else Some (w, []))"
| "unwind n w c =
     (case for_children n w (kids w c) of
        None \<Rightarrow> None
      | Some (w1, t) \<Rightarrow> Some (w1, t, c))"
| "for_children n w [] = Some (w, [])"
| "for_children n w (child # rest) =
     (case end_method n w child of
        None \<Rightarrow> None
      | Some (w1, t1) \<Rightarrow>
          (case for_children n w1 rest of
             None \<Rightarrow> None
           | Some (w2, t2) \<Rightarrow> Some (w2, t1 @ t2)))"
| "end_method n w childContext =
     (case end_override (ctxs w childContext) of
        None \<Rightarrow> end_base n w childContext
      | Some p \<Rightarrow>
          (let index = indexOf (kids w p) childContext in
           if index < 0 then Some (w, [])
           else
             (let notifier = makeNotifier w p;
                  t1 = notify notifier childContextEnding childContext;
                  w1 = upd w p (\<lambda>x. x\<lparr>children := splice1 (children x) index\<rparr>)
              in case end_base n w1 childContext of
                   None \<Rightarrow> None
                 | Some (w2, t2) \<Rightarrow>
                     Some (w2, t1 @ t2 @ notify notifier childContextEnded childContext))))"

subsection \<open>Observers that call back\<close>

text \<open>
  An observer's method is code of the client and may call back into the contexts while
  the notifier is running it.  Here a client's observer is described by the contexts on
  which its method calls \<^verbatim>\<open>end()\<close>: \<open>r ob m c\<close> lists them for observer \<open>ob\<close>, method
  \<open>m\<close> and argument \<open>c\<close>; the empty list is an observer that does not call back.
  \<open>end_base_re\<close>, \<open>unwind_re\<close>, \<open>for_children_re\<close> and \<open>end_method_re\<close> are lines
  259--269, 249--254 and 141--149 again, statement by statement, with the world threaded
  through the notifier calls where the source has them.  In the override, the index is
  computed (line 142) before the parent's observers run (line 145) and used after
  (line 146).  \<^verbatim>\<open>splice(index, 1)\<close> at an index past the end removes nothing.  A call
  made by an observer's method spends one unit of fuel.
\<close>

type_synonym reaction = "obs \<Rightarrow> notification \<Rightarrow> ctx \<Rightarrow> ctx list"

definition quiet :: reaction where
  "quiet ob m c = []"

fun snapshot :: "obs list option \<Rightarrow> obs list" where
  "snapshot None = []"
| "snapshot (Some os) = os"

text \<open>
  Modelled from the spec: the notifier is a \<^verbatim>\<open>Protocol\<close> proxy of the core library;
  calling a lifecycle method on it invokes that method on every observer of the
  snapshot, in snapshot order.  \<open>notify_re\<close> is that fan-out, and \<open>callback_re\<close> runs
  the body of one observer's method.
\<close>

function (sequential) callback_re ::
      "nat \<Rightarrow> reaction \<Rightarrow> world \<Rightarrow> ctx list \<Rightarrow> (world \<times> event list) option"
and notify_re ::
      "nat \<Rightarrow> reaction \<Rightarrow> world \<Rightarrow> obs list \<Rightarrow> notification \<Rightarrow> ctx \<Rightarrow>
       (world \<times> event list) option"
and end_base_re :: "nat \<Rightarrow> reaction \<Rightarrow> world \<Rightarrow> ctx \<Rightarrow> (world \<times> event list) option"
and end_method_re :: "nat \<Rightarrow> reaction \<Rightarrow> world \<Rightarrow> ctx \<Rightarrow> (world \<times> event list) option"
and for_children_re ::
      "nat \<Rightarrow> reaction \<Rightarrow> world \<Rightarrow> ctx list \<Rightarrow> (world \<times> event list) option"
and unwind_re :: "nat \<Rightarrow> reaction \<Rightarrow> world \<Rightarrow> ctx \<Rightarrow> (world \<times> event list \<times> ctx) option"
where
  "callback_re n r w [] = Some (w, [])"
| "callback_re 0 r w (target # rest) = None"
| "callback_re (Suc n) r w (target # rest) =
     (case end_method_re n r w target of
        None \<Rightarrow> None
      | Some (w1, t1) \<Rightarrow>
          (case callback_re (Suc n) r w1 rest of
             None \<Rightarrow> None
           | Some (w2, t2) \<Rightarrow> Some (w2, t1 @ t2)))"
| "notify_re n r w [] m c = Some (w, [])"
| "notify_re n r w (ob # os) m c =
     (case callback_re n r w (r ob m c) of
        None \<Rightarrow> None
      | Some (w1, t1) \<Rightarrow>
          (case notify_re n r w1 os m c of
             None \<Rightarrow> None
           | Some (w2, t2) \<Rightarrow> Some (w2, Notified ob m c # t1 @ t2)))"
| "end_base_re 0 r w c = None"
| "end_base_re (Suc n) r w c =
     (if st w c = Active then
        (let notifier = makeNotifier w c;
             w1 = upd w c (\<lambda>x. x\<lparr>state := Ending\<rparr>)
         in case notify_re (Suc n) r w1 (snapshot notifier) contextEnding c of
              None \<Rightarrow> None
            | Some (w2, t1) \<Rightarrow>
                (case unwind_re n r w2 c of
                   None \<Rightarrow> None
                 | Some (w3, t2, this) \<Rightarrow>
                     (let w4 = upd w3 c (\<lambda>x. x\<lparr>state := Ended\<rparr>)
                      in case notify_re (Suc n) r w4 (snapshot notifier) contextEnded c of
                           None \<Rightarrow> None
                         | Some (w5, t3) \<Rightarrow>
                             (let w6 = upd w5 c (\<lambda>x. x\<lparr>observers := None\<rparr>)
                              in Some (w6, [StateSet c Ending] @ t1 @ t2 @
                                           [StateSet c Ended] @ t3)))))
      else Some (w, []))"
| "end_method_re n r w childContext =
     (case end_override (ctxs w childContext) of
        None \<Rightarrow> end_base_re n r w childContext
      | Some p \<Rightarrow>
          (let index = indexOf (kids w p) childContext in
           if index < 0 then Some (w, [])
           else
             (let notifier = makeNotifier w p
              in case notify_re n r w (snapshot notifier) childContextEnding childContext of
                   None \<Rightarrow> None
                 | Some (w1, t1) \<Rightarrow>
                     (let w2 = upd w1 p (\<lambda>x. x\<lparr>children := splice1 (children x) index\<rparr>)
                      in case end_base_re n r w2 childContext of
                           None \<Rightarrow> None
                         | Some (w3, t2) \<Rightarrow>
                             (case notify_re n r w3 (snapshot notifier) childContextEnded
                                     childContext of
                                None \<Rightarrow> None
                              | Some (w4, t3) \<Rightarrow> Some (w4, t1 @ t2 @ t3))))))"
| "for_children_re n r w [] = Some (w, [])"
| "for_children_re n r w (child # rest) =
     (case end_method_re n r w child of
        None \<Rightarrow> None
      | Some (w1, t1) \<Rightarrow>
          (case for_children_re n r w1 rest of
             None \<Rightarrow> None
           | Some (w2, t2) \<Rightarrow> Some (w2, t1 @ t2)))"
| "unwind_re n r w c =
     (case for_children_re n r w (kids w c) of
        None \<Rightarrow> None
      | Some (w1, t) \<Rightarrow> Some (w1, t, c))"
  by pat_completeness auto
termination
  by (relation "measures [\<lambda>x. case x of
            Inl (Inl (n, _)) \<Rightarrow> n
          | Inl (Inr (Inl (n, _))) \<Rightarrow> n
          | Inl (Inr (Inr (n, _))) \<Rightarrow> n
          | Inr (Inl (n, _)) \<Rightarrow> n
          | Inr (Inr (Inl (n, _))) \<Rightarrow> n
          | Inr (Inr (Inr (n, _))) \<Rightarrow> n,
        \<lambda>x. case x of
            Inl (Inl _) \<Rightarrow> 0
          | Inl (Inr (Inl _)) \<Rightarrow> 1
          | Inl (Inr (Inr _)) \<Rightarrow> 2
          | Inr (Inl _) \<Rightarrow> 3
          | Inr (Inr (Inl _)) \<Rightarrow> 4
          | Inr (Inr (Inr _)) \<Rightarrow> 5,
        \<lambda>x. case x of
            Inl (Inl (n, r, w, targets)) \<Rightarrow> length targets
          | Inl (Inr (Inl (n, r, w, os, _))) \<Rightarrow> length os
          | Inr (Inr (Inl (n, r, w, cs))) \<Rightarrow> length cs
          | _ \<Rightarrow> 0]") auto

subsection \<open>Callback dispatch\<close>

text \<open>
  \<^verbatim>\<open>handleCallback\<close> (lines 167--190) and \<^verbatim>\<open>handleAxis\<close> (lines 200--206).  The
  callback and the composer are passed through untouched; their only use is inside the
  inherited handling \<^verbatim>\<open>this.base(callback, greedy, composer)\<close>, an opaque capability
  of the callback library.  It is the parameter \<open>hb\<close>: \<open>hb c greedy\<close> is what the
  inherited handling of context \<open>c\<close> reports for the callback at hand.  The axis
  argument of \<^verbatim>\<open>handleAxis\<close> is typed, so its \<^verbatim>\<open>instanceof\<close> check always passes.

  A result is the boolean returned, the world (pending axis tags change) and the contexts
  whose inherited handling was invoked, in order.  The recursion follows parent links, so
  it takes fuel; \<open>None\<close> means the fuel ran out.
\<close>

text \<open>
  Modelled from the spec: \<^verbatim>\<open>traverse(axis, visitor, this)\<close> and \<^verbatim>\<open>handle\<close> belong to
  the core and callback libraries.  Of the traversal the design says ``visit nodes
  reachable from this node along axis A, in some defined order, invoking a callback per
  node, stoppable early'': the parameter \<open>tn\<close> gives the nodes of an axis from a
  context, in visiting order, and \<open>visit\<close> is the loop over them with the visitor of
  lines 182--187 as its body, stopping when the visitor returns a true value.
  \<^verbatim>\<open>handle(callback, greedy, composer)\<close> hands the callback to the receiver's
  \<^verbatim>\<open>handleCallback\<close>.
\<close>

function (sequential) handleCallback ::
    "nat \<Rightarrow> (ctx \<Rightarrow> bool \<Rightarrow> bool) \<Rightarrow> (TraversingAxis \<Rightarrow> ctx \<Rightarrow> ctx list) \<Rightarrow>
     world \<Rightarrow> ctx \<Rightarrow> bool \<Rightarrow> (bool \<times> world \<times> ctx list) option"
and handle ::
    "nat \<Rightarrow> (ctx \<Rightarrow> bool \<Rightarrow> bool) \<Rightarrow> (TraversingAxis \<Rightarrow> ctx \<Rightarrow> ctx list) \<Rightarrow>
     world \<Rightarrow> ctx \<Rightarrow> bool \<Rightarrow> (bool \<times> world \<times> ctx list) option"
and handleAxis ::
    "nat \<Rightarrow> (ctx \<Rightarrow> bool \<Rightarrow> bool) \<Rightarrow> (TraversingAxis \<Rightarrow> ctx \<Rightarrow> ctx list) \<Rightarrow>
     world \<Rightarrow> ctx \<Rightarrow> TraversingAxis \<Rightarrow> bool \<Rightarrow> (bool \<times> world \<times> ctx list) option"
and visit ::
    "nat \<Rightarrow> (ctx \<Rightarrow> bool \<Rightarrow> bool) \<Rightarrow> (TraversingAxis \<Rightarrow> ctx \<Rightarrow> ctx list) \<Rightarrow>
     ctx \<Rightarrow> bool \<Rightarrow> ctx list \<Rightarrow> bool \<Rightarrow> world \<Rightarrow> ctx list \<Rightarrow>
     (bool \<times> world \<times> ctx list) option"
where
  "handleCallback 0 hb tn w this greedy = None"
| "handleCallback (Suc n) hb tn w this greedy =
     (case axis (ctxs w this) of
        None \<Rightarrow>
          (let handled = hb this greedy in
           if handled \<and> \<not> greedy then Some (True, w, [this])
           else
             (case parent (ctxs w this) of
                None \<Rightarrow> Some (handled, w, [this])
              | Some p \<Rightarrow>
                  (case handle n hb tn w p greedy of
                     None \<Rightarrow> None
                   | Some (r, w1, invoked) \<Rightarrow> Some (handled \<or> r, w1, this # invoked))))
      | Some a \<Rightarrow>
          (let w1 = upd w this (\<lambda>x. x\<lparr>axis := None\<rparr>) in
           if a = Self then Some (hb this greedy, w1, [this])
           else visit n hb tn this greedy (tn a this) False w1 []))"
| "handle n hb tn w c greedy = handleCallback n hb tn w c greedy"
| "handleAxis n hb tn w c a greedy =
     handle n hb tn (upd w c (\<lambda>x. x\<lparr>axis := Some a\<rparr>)) c greedy"
| "visit n hb tn this greedy [] handled w invoked = Some (handled, w, invoked)"
| "visit n hb tn this greedy (node # rest) handled w invoked =
     (case (if node = this then Some (hb this greedy, w, [this])
            else handleAxis n hb tn w node Self greedy) of
        None \<Rightarrow> None
      | Some (r, w1, l) \<Rightarrow>
          (let handled1 = (handled \<or> r) in
           if handled1 \<and> \<not> greedy then Some (handled1, w1, invoked @ l)
           else visit n hb tn this greedy rest handled1 w1 (invoked @ l)))"
  by pat_completeness auto
termination
  by (relation "measures [\<lambda>x. case x of
            Inl (Inl (n, _)) \<Rightarrow> n
          | Inl (Inr (n, _)) \<Rightarrow> n
          | Inr (Inl (n, _)) \<Rightarrow> n
          | Inr (Inr (n, _)) \<Rightarrow> n,
        \<lambda>x. case x of
            Inl (Inl _) \<Rightarrow> 0
          | Inl (Inr _) \<Rightarrow> 1
          | Inr (Inl _) \<Rightarrow> 2
          | Inr (Inr _) \<Rightarrow> 3,
        \<lambda>x. case x of
            Inr (Inr (n, hb, tn, this, greedy, nodes, _)) \<Rightarrow> length nodes
          | _ \<Rightarrow> 0]") auto

text \<open>
  The handlers ``along the active axis'' of a dispatch that starts at a context, as the
  design describes them: with no pending tag, the context and then its parent's
  handlers; with tag \<^verbatim>\<open>Self\<close>, the context alone; with any other tag, the nodes of the
  traversal.  \<open>upto_first\<close> cuts such a list after its first handler that handles.
\<close>

fun axis_handlers ::
    "nat \<Rightarrow> (TraversingAxis \<Rightarrow> ctx \<Rightarrow> ctx list) \<Rightarrow> world \<Rightarrow> ctx \<Rightarrow> ctx list option" where
  "axis_handlers 0 tn w c = None"
| "axis_handlers (Suc n) tn w c =
     (case axis (ctxs w c) of
        None \<Rightarrow>
          (case parent (ctxs w c) of
             None \<Rightarrow> Some [c]
           | Some p \<Rightarrow>
               (case axis_handlers n tn w p of None \<Rightarrow> None | Some hs \<Rightarrow> Some (c # hs)))
      | Some a \<Rightarrow> if a = Self then Some [c] else Some (tn a c))"

fun upto_first :: "('a \<Rightarrow> bool) \<Rightarrow> 'a list \<Rightarrow> 'a list" where
  "upto_first P [] = []"
| "upto_first P (x # xs) = (if P x then [x] else x # upto_first P xs)"

text \<open>What a dispatch shows to its caller: the boolean and the handlers invoked.\<close>

definition outcome :: "(bool \<times> world \<times> ctx list) option \<Rightarrow> (bool \<times> ctx list) option" where
  "outcome r = (case r of None \<Rightarrow> None | Some (b, w, l) \<Rightarrow> Some (b, l))"

text \<open>A parent is constructed before the context that names it.\<close>

definition parents_older :: "world \<Rightarrow> bool" where
  "parents_older w = (\<forall>c p. parent (ctxs w c) = Some p \<longrightarrow> p < c)"

subsection \<open>Sequences of operations\<close>

text \<open>
  The calls a client can make on the contexts of a world.  \<open>New\<close> is
  \<^verbatim>\<open>new Context()\<close>; \<^verbatim>\<open>dispose\<close> is \<^verbatim>\<open>this.end()\<close> (line 270).  A call that
  raises leaves the world as it was.
\<close>

datatype op =
    New | NewChild ctx | Store ctx jsval | Observe ctx jsval | Unsubscribe ctx obs
  | Unwind ctx | End ctx | Dispose ctx

fun step :: "nat \<Rightarrow> world \<Rightarrow> op \<Rightarrow> (world \<times> event list) option" where
  "step n w New = Some (fst (Context_new w None), [])"
| "step n w (NewChild c) =
     Some ((case newChild w c of Inl e \<Rightarrow> w | Inr (w1, k) \<Rightarrow> w1), [])"
| "step n w (Store c v) = Some (fst (store w c v), [])"
| "step n w (Observe c v) =
     Some ((case observe w c v of Inl e \<Rightarrow> w | Inr (w1, u) \<Rightarrow> w1), [])"
| "step n w (Unsubscribe c ob) =
     Some ((case unsubscribe w c ob of Inl e \<Rightarrow> w | Inr w1 \<Rightarrow> w1), [])"
| "step n w (Unwind c) =
     (case unwind n w c of None \<Rightarrow> None | Some (w1, t, this) \<Rightarrow> Some (w1, t))"
| "step n w (End c) = end_method n w c"
| "step n w (Dispose c) = end_method n w c"

fun run :: "nat \<Rightarrow> world \<Rightarrow> op list \<Rightarrow> (world \<times> event list) option" where
  "run n w [] = Some (w, [])"
| "run n w (x # xs) =
     (case step n w x of
        None \<Rightarrow> None
      | Some (w1, t1) \<Rightarrow>
          (case run n w1 xs of None \<Rightarrow> None | Some (w2, t2) \<Rightarrow> Some (w2, t1 @ t2)))"

text \<open>A \<^verbatim>\<open>newChild\<close> call needs a receiver that has been constructed.\<close>

fun refs_ok :: "nat \<Rightarrow> world \<Rightarrow> op list \<Rightarrow> bool" where
  "refs_ok n w [] = True"
| "refs_ok n w (x # xs) =
     ((case x of NewChild c \<Rightarrow> c < next_id w | _ \<Rightarrow> True) \<and>
      (case step n w x of None \<Rightarrow> True | Some (w1, t) \<Rightarrow> refs_ok n w1 xs))"

subsection \<open>Reading a trace\<close>

text \<open>The states assigned to one context, in order.\<close>

fun writes :: "ctx \<Rightarrow> event list \<Rightarrow> ContextState list" where
  "writes x [] = []"
| "writes x (StateSet y s # t) = (if y = x then s # writes x t else writes x t)"
| "writes x (Notified ob m y # t) = writes x t"

text \<open>The \<^verbatim>\<open>contextEnding\<close> and \<^verbatim>\<open>contextEnded\<close> notifications about one context.\<close>

fun own_notes :: "ctx \<Rightarrow> event list \<Rightarrow> (notification \<times> obs) list" where
  "own_notes x [] = []"
| "own_notes x (StateSet y s # t) = own_notes x t"
| "own_notes x (Notified ob m y # t) =
     (if y = x \<and> (m = contextEnding \<or> m = contextEnded)
      then (m, ob) # own_notes x t else own_notes x t)"

definition obs_list :: "world \<Rightarrow> ctx \<Rightarrow> obs list" where
  "obs_list w c = (case observers (ctxs w c) of None \<Rightarrow> [] | Some os \<Rightarrow> os)"

text \<open>A history of states that only moves \<open>Active\<close>, \<open>Ending\<close>, \<open>Ended\<close>, one step at a time.\<close>

fun forward :: "ContextState list \<Rightarrow> bool" where
  "forward (a # b # r) =
     ((a = Active \<and> b = Ending \<or> a = Ending \<and> b = Ended) \<and> forward (b # r))"
| "forward r = True"

text \<open>
  What one completed call does to every context: either its state and observers are
  untouched, nothing was assigned to its state and nobody was told about its end; or it
  was \<open>Active\<close>, is now \<open>Ended\<close> with its observers cleared, its state was assigned
  \<open>Ending\<close> then \<open>Ended\<close>, and its observers of before were told \<^verbatim>\<open>contextEnding\<close>
  and then \<^verbatim>\<open>contextEnded\<close>, once each.
\<close>

definition lifecycle_step :: "world \<Rightarrow> world \<Rightarrow> event list \<Rightarrow> bool" where
  "lifecycle_step w w' t =
     (\<forall>x. (st w' x = st w x \<and> observers (ctxs w' x) = observers (ctxs w x) \<and>
           writes x t = [] \<and> own_notes x t = []) \<or>
          (st w x = Active \<and> st w' x = Ended \<and> observers (ctxs w' x) = None \<and>
           writes x t = [Ending, Ended] \<and>
           own_notes x t = map (Pair contextEnding) (obs_list w x) @
                           map (Pair contextEnded) (obs_list w x)))"

text \<open>What a completed \<^verbatim>\<open>end\<close> or \<^verbatim>\<open>unwind\<close> leaves alone.\<close>

definition frame :: "world \<Rightarrow> world \<Rightarrow> bool" where
  "frame w w' =
     (next_id w' = next_id w \<and>
      (\<forall>x. parent (ctxs w' x) = parent (ctxs w x) \<and>
           end_override (ctxs w' x) = end_override (ctxs w x) \<and>
           axis (ctxs w' x) = axis (ctxs w x) \<and>
           provided (ctxs w' x) = provided (ctxs w x) \<and>
           set (kids w' x) \<subseteq> set (kids w x) \<and>
           (distinct (kids w x) \<longrightarrow> distinct (kids w' x))))"

definition ok :: "world \<Rightarrow> world \<Rightarrow> event list \<Rightarrow> bool" where
  "ok w w' t = (frame w w' \<and> lifecycle_step w w' t)"

subsection \<open>The shape of the object graph\<close>

text \<open>
  The worlds that construction and the operations above produce: the members of a
  \<^verbatim>\<open>_children\<close> array are constructed contexts, younger than the owner of the array,
  \<open>Active\<close>, and carry the \<^verbatim>\<open>end\<close> override of that owner; no array holds a context
  twice; and an \<open>Active\<close> context with an override is in the array of its owner.
  \<open>detached c\<close> is the same shape in the middle of \<open>c\<close>'s own \<^verbatim>\<open>end\<close>, when \<open>c\<close> is
  in no array any more but its state is still to be assigned.
\<close>

definition tree_inv :: "world \<Rightarrow> bool" where
  "tree_inv w =
     ((\<forall>p k. k \<in> set (kids w p) \<longrightarrow>
         p < k \<and> k < next_id w \<and> st w k = Active \<and> end_override (ctxs w k) = Some p) \<and>
      (\<forall>p. distinct (kids w p)) \<and>
      (\<forall>k p. end_override (ctxs w k) = Some p \<and> st w k = Active \<longrightarrow> k \<in> set (kids w p)))"

definition detached :: "ctx \<Rightarrow> world \<Rightarrow> bool" where
  "detached c w =
     ((\<forall>p k. k \<in> set (kids w p) \<longrightarrow>
         p < k \<and> k < next_id w \<and> st w k = Active \<and> end_override (ctxs w k) = Some p) \<and>
      (\<forall>p. distinct (kids w p)) \<and>
      (\<forall>k p. end_override (ctxs w k) = Some p \<and> st w k = Active \<and> k \<noteq> c \<longrightarrow>
         k \<in> set (kids w p)) \<and>
      (\<forall>p. c \<notin> set (kids w p)))"

subsection \<open>Example worlds\<close>

text \<open>No context constructed yet.\<close>

definition world0 :: world where
  "world0 = \<lparr>ctxs = (\<lambda>x. \<lparr>parent = None, state = Active, children = [], observers = None,
                          axis = None, end_override = None, provided = []\<rparr>),
             next_id = 0\<rparr>"

text \<open>
  A root \<open>0\<close> observed by \<open>7\<close>, its children \<open>1\<close> and \<open>2\<close>, and \<open>3\<close>, a child of
  \<open>1\<close>; \<open>1\<close> is observed by \<open>8\<close>.
\<close>

definition family_ops :: "op list" where
  "family_ops = [New, Observe 0 (Obj 7), NewChild 0, NewChild 0, NewChild 1, Observe 1 (Obj 8)]"

definition family :: world where
  "family = (case run 10 world0 family_ops of Some (w, t) \<Rightarrow> w | None \<Rightarrow> world0)"

text \<open>The same after \<^verbatim>\<open>end()\<close> on the root.\<close>

definition family_ended :: world where
  "family_ended = (case run 10 family [End 0] of Some (w, t) \<Rightarrow> w | None \<Rightarrow> family)"

text \<open>
  A root \<open>0\<close> observed by \<open>7\<close> with three children \<open>1\<close>, \<open>2\<close> and \<open>3\<close>.
\<close>

definition trio_ops :: "op list" where
  "trio_ops = [New, Observe 0 (Obj 7), NewChild 0, NewChild 0, NewChild 0]"

definition trio :: world where
  "trio = (case run 10 world0 trio_ops of Some (w, t) \<Rightarrow> w | None \<Rightarrow> world0)"

text \<open>
  An observer \<open>7\<close> whose \<^verbatim>\<open>childContextEnding\<close>, when told about context \<open>2\<close>, calls
  \<^verbatim>\<open>end()\<close> on context \<open>1\<close>; every other observer method does not call back.
\<close>

definition meddler :: reaction where
  "meddler ob m c = (if ob = 7 \<and> m = childContextEnding \<and> c = 2 then [1] else [])"

text \<open>
  For dispatch on the example: only the root's inherited handling handles the callback,
  and only the root has a traversal, along \<^verbatim>\<open>SelfOrDescendant\<close>.
\<close>

definition root_handles :: "ctx \<Rightarrow> bool \<Rightarrow> bool" where
  "root_handles c greedy = (c = 0)"

definition family_nodes :: "TraversingAxis \<Rightarrow> ctx \<Rightarrow> ctx list" where
  "family_nodes a c = (if a = SelfOrDescendant \<and> c = 0 then [0, 1, 3, 2] else [])"

section \<open>Basic facts\<close>

lemma ctxs_upd [simp]: "ctxs (upd w c f) x = (if x = c then f (ctxs w c) else ctxs w x)"
  by (simp add: upd_def)

lemma next_id_upd [simp]: "next_id (upd w c f) = next_id w"
  by (simp add: upd_def)

lemma isNothing_simps [simp]:
  "isNothing Undefined" "isNothing Null" "\<not> isNothing (Obj a)"
  by (simp_all add: isNothing_def)

lemma indexOf_ge: "- 1 \<le> indexOf xs x"
  by (induction xs) (auto simp: Let_def)

lemma indexOf_neg_iff: "indexOf xs x < 0 \<longleftrightarrow> x \<notin> set xs"
  using indexOf_ge [of _ x] by (induction xs) (auto simp: Let_def)

lemma splice1_indexOf: "x \<in> set xs \<Longrightarrow> splice1 xs (indexOf xs x) = remove1 x xs"
proof (induction xs)
  case Nil
  then show ?case by simp
next
  case (Cons y ys)
  show ?case
  proof (cases "y = x")
    case True
    then show ?thesis by (simp add: splice1_def)
  next
    case False
    with Cons.prems have mem: "x \<in> set ys" by simp
    then have nn: "\<not> indexOf ys x < 0" by (simp add: indexOf_neg_iff)
    then have "nat (indexOf ys x + 1) = Suc (nat (indexOf ys x))" by simp
    with False nn Cons.IH [OF mem] show ?thesis
      by (simp add: splice1_def Let_def)
  qed
qed

lemma writes_append [simp]: "writes x (t1 @ t2) = writes x t1 @ writes x t2"
  by (induction x t1 rule: writes.induct) auto

lemma own_notes_append [simp]: "own_notes x (t1 @ t2) = own_notes x t1 @ own_notes x t2"
  by (induction x t1 rule: own_notes.induct) auto

lemma writes_map_Notified [simp]: "writes x (map (\<lambda>ob. Notified ob m c) os) = []"
  by (induction os) auto

lemma writes_notify [simp]: "writes x (notify snap m c) = []"
  by (cases snap) auto

lemma own_notes_map_Notified:
  "own_notes x (map (\<lambda>ob. Notified ob m c) os) =
     (if c = x \<and> (m = contextEnding \<or> m = contextEnded) then map (Pair m) os else [])"
  by (induction os) auto

lemma own_notes_notify:
  "own_notes x (notify snap m c) =
     (if c = x \<and> (m = contextEnding \<or> m = contextEnded)
      then map (Pair m) (case snap of None \<Rightarrow> [] | Some os \<Rightarrow> os) else [])"
  by (cases snap) (auto simp: own_notes_map_Notified)

lemma own_notes_child_notify [simp]:
  "own_notes x (notify snap childContextEnding c) = []"
  "own_notes x (notify snap childContextEnded c) = []"
  by (simp_all add: own_notes_notify)

section \<open>What every completed end and unwind does\<close>

lemma frame_refl [simp]: "frame w w"
  by (simp add: frame_def)

lemma frame_trans: "frame w w1 \<Longrightarrow> frame w1 w2 \<Longrightarrow> frame w w2"
  unfolding frame_def by (metis subset_trans)

lemma lifecycle_refl [simp]: "lifecycle_step w w []"
  by (simp add: lifecycle_step_def)

lemma lifecycle_trans:
  assumes "lifecycle_step w w1 t1" "lifecycle_step w1 w2 t2"
  shows "lifecycle_step w w2 (t1 @ t2)"
  unfolding lifecycle_step_def
proof
  fix x
  from assms(1) have a: "(st w1 x = st w x \<and> observers (ctxs w1 x) = observers (ctxs w x) \<and>
           writes x t1 = [] \<and> own_notes x t1 = []) \<or>
          (st w x = Active \<and> st w1 x = Ended \<and> observers (ctxs w1 x) = None \<and>
           writes x t1 = [Ending, Ended] \<and>
           own_notes x t1 = map (Pair contextEnding) (obs_list w x) @
                           map (Pair contextEnded) (obs_list w x))"
    unfolding lifecycle_step_def by blast
  from assms(2) have b: "(st w2 x = st w1 x \<and> observers (ctxs w2 x) = observers (ctxs w1 x) \<and>
           writes x t2 = [] \<and> own_notes x t2 = []) \<or>
          (st w1 x = Active \<and> st w2 x = Ended \<and> observers (ctxs w2 x) = None \<and>
           writes x t2 = [Ending, Ended] \<and>
           own_notes x t2 = map (Pair contextEnding) (obs_list w1 x) @
                           map (Pair contextEnded) (obs_list w1 x))"
    unfolding lifecycle_step_def by blast
  from a b show "(st w2 x = st w x \<and> observers (ctxs w2 x) = observers (ctxs w x) \<and>
           writes x (t1 @ t2) = [] \<and> own_notes x (t1 @ t2) = []) \<or>
          (st w x = Active \<and> st w2 x = Ended \<and> observers (ctxs w2 x) = None \<and>
           writes x (t1 @ t2) = [Ending, Ended] \<and>
           own_notes x (t1 @ t2) = map (Pair contextEnding) (obs_list w x) @
                           map (Pair contextEnded) (obs_list w x))"
    by (auto simp: obs_list_def)
qed

lemma ok_refl [simp]: "ok w w []"
  by (simp add: ok_def)

lemma ok_trans: "ok w w1 t1 \<Longrightarrow> ok w1 w2 t2 \<Longrightarrow> ok w w2 (t1 @ t2)"
  by (auto simp: ok_def intro: frame_trans lifecycle_trans)

lemma ok_end_base_step:
  assumes u: "ok (upd w c (\<lambda>x. x\<lparr>state := Ending\<rparr>)) w2 t2"
    and a: "st w c = Active"
  shows "ok w (upd (upd w2 c (\<lambda>x. x\<lparr>state := Ended\<rparr>)) c (\<lambda>x. x\<lparr>observers := None\<rparr>))
            ([StateSet c Ending] @ notify (makeNotifier w c) contextEnding c @ t2 @
             [StateSet c Ended] @ notify (makeNotifier w c) contextEnded c)"
    (is "ok w ?w4 ?t")
proof -
  let ?w1 = "upd w c (\<lambda>x. x\<lparr>state := Ending\<rparr>)"
  from u have f: "frame ?w1 w2" and l: "lifecycle_step ?w1 w2 t2"
    by (simp_all add: ok_def)
  have "frame w ?w4"
    using f unfolding frame_def by (auto split: if_splits)
  moreover have "lifecycle_step w ?w4 ?t"
    unfolding lifecycle_step_def
  proof
    fix x
    from l have d: "(st w2 x = st ?w1 x \<and> observers (ctxs w2 x) = observers (ctxs ?w1 x) \<and>
           writes x t2 = [] \<and> own_notes x t2 = []) \<or>
          (st ?w1 x = Active \<and> st w2 x = Ended \<and> observers (ctxs w2 x) = None \<and>
           writes x t2 = [Ending, Ended] \<and>
           own_notes x t2 = map (Pair contextEnding) (obs_list ?w1 x) @
                           map (Pair contextEnded) (obs_list ?w1 x))"
      unfolding lifecycle_step_def by blast
    show "(st ?w4 x = st w x \<and> observers (ctxs ?w4 x) = observers (ctxs w x) \<and>
           writes x ?t = [] \<and> own_notes x ?t = []) \<or>
          (st w x = Active \<and> st ?w4 x = Ended \<and> observers (ctxs ?w4 x) = None \<and>
           writes x ?t = [Ending, Ended] \<and>
           own_notes x ?t = map (Pair contextEnding) (obs_list w x) @
                           map (Pair contextEnded) (obs_list w x))"
    proof (cases "x = c")
      case True
      with d a show ?thesis
        by (auto simp: own_notes_notify makeNotifier_def obs_list_def)
    next
      case False
      with d show ?thesis
        by (auto simp: own_notes_notify obs_list_def)
    qed
  qed
  ultimately show ?thesis by (simp add: ok_def)
qed

lemma ok_splice:
  assumes "ok (upd w p (\<lambda>x. x\<lparr>children := splice1 (children x) (indexOf (kids w p) c)\<rparr>)) w2 t2"
    and "\<not> indexOf (kids w p) c < 0"
  shows "ok w w2 (notify s1 childContextEnding c @ t2 @ notify s2 childContextEnded c)"
proof -
  from assms(2) have mem: "c \<in> set (kids w p)" by (simp add: indexOf_neg_iff)
  have "ok w (upd w p (\<lambda>x. x\<lparr>children := splice1 (children x) (indexOf (kids w p) c)\<rparr>)) []"
    unfolding ok_def frame_def lifecycle_step_def
    using mem by (auto simp: splice1_indexOf dest: set_remove1_subset [THEN subsetD])
  from ok_trans [OF this assms(1)] show ?thesis
    by (simp add: ok_def lifecycle_step_def)
qed

lemma ok_all:
  "end_base n w c = Some (w', t) \<Longrightarrow> ok w w' t"
  "unwind n w c = Some (w', t, r) \<Longrightarrow> ok w w' t \<and> r = c"
  "for_children n w cs = Some (w', t) \<Longrightarrow> ok w w' t"
  "end_method n w c = Some (w', t) \<Longrightarrow> ok w w' t"
proof (induction n w c and n w c and n w cs and n w c
       arbitrary: w' t and w' t r and w' t and w' t
       rule: end_base_unwind_for_children_end_method.induct)
  case (1 w c)
  then show ?case by simp
next
  case (2 n w c)
  show ?case
  proof (cases "st w c = Active")
    case True
    with "2.prems" obtain w2 t2 r where
      u: "unwind n (upd w c (\<lambda>x. x\<lparr>state := Ending\<rparr>)) c = Some (w2, t2, r)"
      and w': "w' = upd (upd w2 c (\<lambda>x. x\<lparr>state := Ended\<rparr>)) c (\<lambda>x. x\<lparr>observers := None\<rparr>)"
      and t: "t = [StateSet c Ending] @ notify (makeNotifier w c) contextEnding c @ t2 @
                  [StateSet c Ended] @ notify (makeNotifier w c) contextEnded c"
      by (auto simp: Let_def split: option.splits)
    from "2.IH" [OF True refl refl refl u] have "ok (upd w c (\<lambda>x. x\<lparr>state := Ending\<rparr>)) w2 t2"
      by simp
    from ok_end_base_step [OF this True] show ?thesis unfolding w' t .
  next
    case False
    with "2.prems" show ?thesis by simp
  qed
next
  case (3 n w c)
  then show ?case by (auto split: option.splits)
next
  case (4 n w)
  then show ?case by simp
next
  case (5 n w child rest)
  from "5.prems" obtain w1 t1 t2 where
    a: "end_method n w child = Some (w1, t1)" and b: "for_children n w1 rest = Some (w', t2)"
    and t: "t = t1 @ t2"
    by (auto split: option.splits)
  from "5.IH"(1) [OF a] "5.IH"(2) [OF a refl b] show ?case
    unfolding t by (rule ok_trans)
next
  case (6 n w c)
  show ?case
  proof (cases "end_override (ctxs w c)")
    case None
    with "6.prems" "6.IH"(1) show ?thesis by simp
  next
    case (Some p)
    show ?thesis
    proof (cases "indexOf (kids w p) c < 0")
      case True
      with Some "6.prems" show ?thesis by (simp add: Let_def)
    next
      case False
      with Some "6.prems" obtain t2 where
        e: "end_base n (upd w p (\<lambda>x. x\<lparr>children := splice1 (children x) (indexOf (kids w p) c)\<rparr>)) c
              = Some (w', t2)"
        and t: "t = notify (makeNotifier w p) childContextEnding c @ t2 @
                    notify (makeNotifier w p) childContextEnded c"
        by (auto simp: Let_def split: option.splits)
      from "6.IH"(2) [OF Some refl False refl refl refl e]
      show ?thesis unfolding t using False by (rule ok_splice)
    qed
  qed
qed

lemma ok_next_id: "ok w w' t \<Longrightarrow> next_id w' = next_id w"
  by (simp add: ok_def frame_def)


lemma ok_cases:
  assumes "ok w w' t"
  shows "(st w' x = st w x \<and> observers (ctxs w' x) = observers (ctxs w x) \<and>
           writes x t = [] \<and> own_notes x t = []) \<or>
          (st w x = Active \<and> st w' x = Ended \<and> observers (ctxs w' x) = None \<and>
           writes x t = [Ending, Ended] \<and>
           own_notes x t = map (Pair contextEnding) (obs_list w x) @
                           map (Pair contextEnded) (obs_list w x))"
  using assms unfolding ok_def lifecycle_step_def by blast

lemma ok_keeps_state:
  "ok w w' t \<Longrightarrow> st w x \<noteq> Active \<Longrightarrow>
     st w' x = st w x \<and> observers (ctxs w' x) = observers (ctxs w x) \<and>
     writes x t = [] \<and> own_notes x t = []"
  using ok_cases [of w w' t x] by auto

lemma ok_Active_cases:
  "ok w w' t \<Longrightarrow> st w' x = Active \<or> st w' x = st w x \<or> st w' x = Ended"
  using ok_cases [of w w' t x] by auto

section \<open>Facts about the shape of the object graph\<close>

lemma tree_invI:
  assumes "\<And>p k. k \<in> set (kids w p) \<Longrightarrow>
             p < k \<and> k < next_id w \<and> st w k = Active \<and> end_override (ctxs w k) = Some p"
    and "\<And>p. distinct (kids w p)"
    and "\<And>k p. end_override (ctxs w k) = Some p \<Longrightarrow> st w k = Active \<Longrightarrow> k \<in> set (kids w p)"
  shows "tree_inv w"
  unfolding tree_inv_def using assms by blast

lemma tree_inv_kid:
  "tree_inv w \<Longrightarrow> k \<in> set (kids w p) \<Longrightarrow>
     p < k \<and> k < next_id w \<and> st w k = Active \<and> end_override (ctxs w k) = Some p"
  unfolding tree_inv_def by blast

lemma tree_inv_distinct: "tree_inv w \<Longrightarrow> distinct (kids w p)"
  unfolding tree_inv_def by blast

lemma tree_inv_listed:
  "tree_inv w \<Longrightarrow> end_override (ctxs w k) = Some p \<Longrightarrow> st w k = Active \<Longrightarrow> k \<in> set (kids w p)"
  unfolding tree_inv_def by blast

lemma detachedI:
  assumes "\<And>p k. k \<in> set (kids w p) \<Longrightarrow>
             p < k \<and> k < next_id w \<and> st w k = Active \<and> end_override (ctxs w k) = Some p"
    and "\<And>p. distinct (kids w p)"
    and "\<And>k p. end_override (ctxs w k) = Some p \<Longrightarrow> st w k = Active \<Longrightarrow> k \<noteq> c \<Longrightarrow>
           k \<in> set (kids w p)"
    and "\<And>p. c \<notin> set (kids w p)"
  shows "detached c w"
  unfolding detached_def using assms by blast

lemma detached_kid:
  "detached c w \<Longrightarrow> k \<in> set (kids w p) \<Longrightarrow>
     p < k \<and> k < next_id w \<and> st w k = Active \<and> end_override (ctxs w k) = Some p"
  unfolding detached_def by blast

lemma detached_distinct: "detached c w \<Longrightarrow> distinct (kids w p)"
  unfolding detached_def by blast

lemma detached_listed:
  "detached c w \<Longrightarrow> end_override (ctxs w k) = Some p \<Longrightarrow> st w k = Active \<Longrightarrow> k \<noteq> c \<Longrightarrow>
     k \<in> set (kids w p)"
  unfolding detached_def by blast

lemma detached_absent: "detached c w \<Longrightarrow> c \<notin> set (kids w p)"
  unfolding detached_def by blast

lemma detached_not_Active:
  assumes "detached c w" "st w c \<noteq> Active"
  shows "tree_inv w"
proof (rule tree_invI)
  fix p k assume "k \<in> set (kids w p)"
  with assms(1) show "p < k \<and> k < next_id w \<and> st w k = Active \<and> end_override (ctxs w k) = Some p"
    by (rule detached_kid)
next
  fix p show "distinct (kids w p)" using assms(1) by (rule detached_distinct)
next
  fix k p assume a: "end_override (ctxs w k) = Some p" "st w k = Active"
  with assms(2) have "k \<noteq> c" by auto
  with assms(1) a show "k \<in> set (kids w p)" by (rule detached_listed)
qed

lemma detached_set_Ending:
  assumes "detached c w"
  shows "tree_inv (upd w c (\<lambda>x. x\<lparr>state := Ending\<rparr>))" (is "tree_inv ?w1")
proof (rule tree_invI)
  fix p k assume "k \<in> set (kids ?w1 p)"
  then have m: "k \<in> set (kids w p)" by (auto split: if_splits)
  with assms have "k \<noteq> c" using detached_absent [OF assms, of p] by auto
  with detached_kid [OF assms m]
  show "p < k \<and> k < next_id ?w1 \<and> st ?w1 k = Active \<and> end_override (ctxs ?w1 k) = Some p"
    by simp
next
  fix p show "distinct (kids ?w1 p)" using detached_distinct [OF assms, of p] by auto
next
  fix k p assume a: "end_override (ctxs ?w1 k) = Some p" "st ?w1 k = Active"
  from a(2) have ne: "k \<noteq> c" by (auto split: if_splits)
  with a have "end_override (ctxs w k) = Some p" "st w k = Active" by simp_all
  from detached_listed [OF assms this ne] show "k \<in> set (kids ?w1 p)" by auto
qed

lemma tree_inv_not_child: "tree_inv w \<Longrightarrow> st w c \<noteq> Active \<Longrightarrow> c \<notin> set (kids w p)"
  using tree_inv_kid [of w c p] by blast

lemma tree_inv_set_Ended:
  assumes "tree_inv w" "st w c \<noteq> Active"
  shows "tree_inv (upd (upd w c (\<lambda>x. x\<lparr>state := Ended\<rparr>)) c (\<lambda>x. x\<lparr>observers := None\<rparr>))"
    (is "tree_inv ?w1")
proof (rule tree_invI)
  fix p k assume "k \<in> set (kids ?w1 p)"
  then have m: "k \<in> set (kids w p)" by (auto split: if_splits)
  with assms have "k \<noteq> c" using tree_inv_not_child [OF assms, of p] by auto
  with tree_inv_kid [OF assms(1) m]
  show "p < k \<and> k < next_id ?w1 \<and> st ?w1 k = Active \<and> end_override (ctxs ?w1 k) = Some p"
    by simp
next
  fix p show "distinct (kids ?w1 p)" using tree_inv_distinct [OF assms(1), of p] by auto
next
  fix k p assume a: "end_override (ctxs ?w1 k) = Some p" "st ?w1 k = Active"
  from a(2) have ne: "k \<noteq> c" by (auto split: if_splits)
  with a have "end_override (ctxs w k) = Some p" "st w k = Active" by simp_all
  from tree_inv_listed [OF assms(1) this] show "k \<in> set (kids ?w1 p)" by auto
qed

lemma tree_inv_no_override:
  assumes "tree_inv w" "end_override (ctxs w c) = None"
  shows "detached c w"
proof (rule detachedI)
  fix p k assume "k \<in> set (kids w p)"
  with assms(1) show "p < k \<and> k < next_id w \<and> st w k = Active \<and> end_override (ctxs w k) = Some p"
    by (rule tree_inv_kid)
next
  fix p show "distinct (kids w p)" using assms(1) by (rule tree_inv_distinct)
next
  fix k p assume "end_override (ctxs w k) = Some p" "st w k = Active"
  with assms(1) show "k \<in> set (kids w p)" by (rule tree_inv_listed)
next
  fix p show "c \<notin> set (kids w p)" using tree_inv_kid [of w c p] assms by auto
qed

lemma tree_inv_splice:
  assumes "tree_inv w" "end_override (ctxs w c) = Some p" "c \<in> set (kids w p)"
  shows "detached c (upd w p (\<lambda>x. x\<lparr>children := remove1 c (children x)\<rparr>))"
    (is "detached c ?w1")
proof (rule detachedI)
  fix q k assume "k \<in> set (kids ?w1 q)"
  then have "k \<in> set (kids w q)"
    by (cases "q = p") (auto dest: set_remove1_subset [THEN subsetD])
  from tree_inv_kid [OF assms(1) this]
  show "q < k \<and> k < next_id ?w1 \<and> st ?w1 k = Active \<and> end_override (ctxs ?w1 k) = Some q"
    by auto
next
  fix q show "distinct (kids ?w1 q)" using tree_inv_distinct [OF assms(1), of q] by auto
next
  fix k q assume a: "end_override (ctxs ?w1 k) = Some q" "st ?w1 k = Active" and ne: "k \<noteq> c"
  then have "end_override (ctxs w k) = Some q" "st w k = Active" by (auto split: if_splits)
  from tree_inv_listed [OF assms(1) this] ne show "k \<in> set (kids ?w1 q)" by auto
next
  fix q
  show "c \<notin> set (kids ?w1 q)"
  proof (cases "q = p")
    case True
    then show ?thesis using tree_inv_distinct [OF assms(1), of p] by simp
  next
    case False
    have "c \<notin> set (kids w q)"
    proof
      assume "c \<in> set (kids w q)"
      from tree_inv_kid [OF assms(1) this] assms(2) False show False by simp
    qed
    with False show ?thesis by simp
  qed
qed

section \<open>Ending and unwinding return, and keep the shape\<close>

lemma total_all:
  "detached c w \<Longrightarrow> next_id w - c < n \<Longrightarrow>
     \<exists>w' t. end_base n w c = Some (w', t) \<and> tree_inv w'"
  "tree_inv w \<Longrightarrow> next_id w - c \<le> n \<Longrightarrow>
     \<exists>w' t. unwind n w c = Some (w', t, c) \<and> tree_inv w'"
  "tree_inv w \<Longrightarrow> \<forall>k\<in>set cs. next_id w - k < n \<Longrightarrow>
     \<exists>w' t. for_children n w cs = Some (w', t) \<and> tree_inv w'"
  "tree_inv w \<Longrightarrow> next_id w - c < n \<Longrightarrow>
     \<exists>w' t. end_method n w c = Some (w', t) \<and> tree_inv w'"
proof (induction n w c and n w c and n w cs and n w c
       rule: end_base_unwind_for_children_end_method.induct)
  case (1 w c)
  then show ?case by simp
next
  case (2 n w c)
  show ?case
  proof (cases "st w c = Active")
    case True
    let ?w1 = "upd w c (\<lambda>x. x\<lparr>state := Ending\<rparr>)"
    have inv1: "tree_inv ?w1" using "2.prems"(1) by (rule detached_set_Ending)
    have fuel: "next_id ?w1 - c \<le> n" using "2.prems"(2) by simp
    from "2.IH" [OF True refl refl refl inv1 fuel] obtain w2 t2 where
      u: "unwind n ?w1 c = Some (w2, t2, c)" and inv2: "tree_inv w2" by blast
    from ok_all(2) [OF u] have "ok ?w1 w2 t2" by simp
    then have "st w2 c = Ending" using ok_keeps_state [of ?w1 w2 t2 c] by simp
    then have "st w2 c \<noteq> Active" by simp
    from tree_inv_set_Ended [OF inv2 this] True u show ?thesis
      by (simp add: Let_def)
  next
    case False
    with "2.prems"(1) show ?thesis by (simp add: detached_not_Active)
  qed
next
  case (3 n w c)
  have "\<forall>k\<in>set (kids w c). next_id w - k < n"
  proof
    fix k assume "k \<in> set (kids w c)"
    with "3.prems"(1) have "c < k \<and> k < next_id w" by (simp add: tree_inv_kid)
    with "3.prems"(2) show "next_id w - k < n" by linarith
  qed
  from "3.IH" [OF "3.prems"(1) this] show ?case by auto
next
  case (4 n w)
  then show ?case by simp
next
  case (5 n w child rest)
  from "5.prems" have "next_id w - child < n" by simp
  from "5.IH"(1) [OF "5.prems"(1) this] obtain w1 t1 where
    a: "end_method n w child = Some (w1, t1)" and inv1: "tree_inv w1" by blast
  from ok_all(4) [OF a] have "next_id w1 = next_id w" by (rule ok_next_id)
  with "5.prems"(2) have "\<forall>k\<in>set rest. next_id w1 - k < n" by simp
  from "5.IH"(2) [OF a refl inv1 this] a show ?case by auto
next
  case (6 n w c)
  show ?case
  proof (cases "end_override (ctxs w c)")
    case None
    from "6.IH"(1) [OF None tree_inv_no_override [OF "6.prems"(1) None] "6.prems"(2)] None
    show ?thesis by simp
  next
    case (Some p)
    show ?thesis
    proof (cases "indexOf (kids w p) c < 0")
      case True
      with Some "6.prems"(1) show ?thesis by (simp add: Let_def)
    next
      case False
      then have mem: "c \<in> set (kids w p)" by (simp add: indexOf_neg_iff)
      let ?w1 = "upd w p (\<lambda>x. x\<lparr>children := splice1 (children x) (indexOf (kids w p) c)\<rparr>)"
      have eq: "?w1 = upd w p (\<lambda>x. x\<lparr>children := remove1 c (children x)\<rparr>)"
        using mem by (simp add: upd_def splice1_indexOf)
      have d: "detached c ?w1" unfolding eq
        using "6.prems"(1) Some mem by (rule tree_inv_splice)
      have fuel: "next_id ?w1 - c < n" using "6.prems"(2) by simp
      from "6.IH"(2) [OF Some refl False refl refl refl d fuel] Some False
      show ?thesis by (auto simp: Let_def)
    qed
  qed
qed

section \<open>Construction and the other operations keep the shape\<close>

lemma tree_inv_world0: "tree_inv world0"
  by (simp add: tree_inv_def world0_def)

lemma tree_inv_same:
  assumes "tree_inv w" "next_id w' = next_id w"
    and "\<And>x. kids w' x = kids w x \<and> st w' x = st w x \<and>
              end_override (ctxs w' x) = end_override (ctxs w x)"
  shows "tree_inv w'"
proof (rule tree_invI)
  fix p k assume "k \<in> set (kids w' p)"
  then have "k \<in> set (kids w p)" by (simp add: assms(3))
  from tree_inv_kid [OF assms(1) this]
  show "p < k \<and> k < next_id w' \<and> st w' k = Active \<and> end_override (ctxs w' k) = Some p"
    by (simp add: assms(2,3))
next
  fix p show "distinct (kids w' p)" using tree_inv_distinct [OF assms(1), of p] by (simp add: assms(3))
next
  fix k p assume "end_override (ctxs w' k) = Some p" "st w' k = Active"
  then have "end_override (ctxs w k) = Some p" "st w k = Active" by (simp_all add: assms(3))
  from tree_inv_listed [OF assms(1) this] show "k \<in> set (kids w' p)" by (simp add: assms(3))
qed

lemma Context_new_fresh:
  "Context_new w p = (w1, k) \<Longrightarrow>
     k = next_id w \<and> next_id w1 = Suc (next_id w) \<and>
     ctxs w1 = (ctxs w)(k := \<lparr>parent = p, state = Active, children = [], observers = None,
                              axis = None, end_override = None, provided = []\<rparr>)"
  by (auto simp: Context_new_def Let_def)

lemma tree_inv_fresh_kids:
  assumes "tree_inv w"
  shows "kids w (next_id w) = []"
proof (cases "kids w (next_id w)")
  case Nil
  then show ?thesis .
next
  case (Cons j js)
  then have "j \<in> set (kids w (next_id w))" by simp
  from tree_inv_kid [OF assms this] have "next_id w < j" "j < next_id w" by simp_all
  then have False by simp
  then show ?thesis ..
qed

lemma tree_inv_Context_new:
  assumes "tree_inv w"
  shows "tree_inv (fst (Context_new w p))" (is "tree_inv ?w1")
proof -
  let ?k = "next_id w"
  have f: "next_id ?w1 = Suc ?k"
    "\<And>x. ctxs ?w1 x = (if x = ?k then \<lparr>parent = p, state = Active, children = [],
        observers = None, axis = None, end_override = None, provided = []\<rparr> else ctxs w x)"
    by (simp_all add: Context_new_def Let_def)
  have nokid: "?k \<notin> set (kids w q)" for q using tree_inv_kid [OF assms, of ?k q] by auto
  have nokids: "kids w ?k = []" using assms by (rule tree_inv_fresh_kids)
  show ?thesis
  proof (rule tree_invI)
    fix q j assume "j \<in> set (kids ?w1 q)"
    then have m: "j \<in> set (kids w q)" by (auto simp: f split: if_splits)
    with nokid have "j \<noteq> ?k" by auto
    with tree_inv_kid [OF assms m]
    show "q < j \<and> j < next_id ?w1 \<and> st ?w1 j = Active \<and> end_override (ctxs ?w1 j) = Some q"
      by (simp add: f)
  next
    fix q show "distinct (kids ?w1 q)" using tree_inv_distinct [OF assms, of q] by (simp add: f)
  next
    fix j q assume a: "end_override (ctxs ?w1 j) = Some q" "st ?w1 j = Active"
    then have ne: "j \<noteq> ?k" by (auto simp: f split: if_splits)
    with a have "end_override (ctxs w j) = Some q" "st w j = Active" by (simp_all add: f)
    from tree_inv_listed [OF assms this] have m: "j \<in> set (kids w q)" .
    with nokids have "q \<noteq> ?k" by auto
    with m show "j \<in> set (kids ?w1 q)" by (simp add: f)
  qed
qed

lemma newChild_Active:
  assumes "st w c = Active"
  shows "newChild w c =
     Inr (upd (upd (fst (Context_new w (Some c))) (next_id w) (\<lambda>x. x\<lparr>end_override := Some c\<rparr>))
            c (\<lambda>x. x\<lparr>children := children x @ [next_id w]\<rparr>), next_id w)"
  using assms by (simp add: newChild_def ensureActive_def Context_new_def Let_def)

lemma newChild_not_Active:
  "st w c \<noteq> Active \<Longrightarrow> newChild w c = Inl (Error ''The context has already ended.'')"
  by (simp add: newChild_def ensureActive_def)

lemma tree_inv_newChild:
  assumes "tree_inv w" "c < next_id w" "newChild w c = Inr (w', k)"
  shows "tree_inv w'"
proof -
  from assms(3) have act: "st w c = Active"
    by (cases "st w c = Active") (simp_all add: newChild_not_Active)
  let ?k = "next_id w"
  let ?w0 = "fst (Context_new w (Some c))"
  from assms(3) newChild_Active [OF act]
  have w': "w' = upd (upd ?w0 ?k (\<lambda>x. x\<lparr>end_override := Some c\<rparr>))
            c (\<lambda>x. x\<lparr>children := children x @ [?k]\<rparr>)" and k: "k = ?k" by auto
  have inv0: "tree_inv ?w0" using assms(1) by (rule tree_inv_Context_new)
  have f0: "next_id ?w0 = Suc ?k"
    "\<And>x. ctxs ?w0 x = (if x = ?k then \<lparr>parent = Some c, state = Active, children = [],
        observers = None, axis = None, end_override = None, provided = []\<rparr> else ctxs w x)"
    by (simp_all add: Context_new_def Let_def)
  from assms(2) have ck: "c \<noteq> ?k" by simp
  have nokid: "?k \<notin> set (kids w q)" for q using tree_inv_kid [OF assms(1), of ?k q] by auto
  have nokids: "kids w ?k = []" using assms(1) by (rule tree_inv_fresh_kids)
  have kids': "kids w' q = (if q = c then kids w c @ [?k] else if q = ?k then [] else kids w q)" for q
    using ck by (simp add: w' f0)
  have st': "st w' x = (if x = ?k then Active else st w x)" for x
    using ck by (simp add: w' f0)
  have ov': "end_override (ctxs w' x) = (if x = ?k then Some c else end_override (ctxs w x))" for x
    using ck by (simp add: w' f0)
  have nx': "next_id w' = Suc ?k" by (simp add: w' f0)
  show ?thesis
  proof (rule tree_invI)
    fix q j assume m: "j \<in> set (kids w' q)"
    show "q < j \<and> j < next_id w' \<and> st w' j = Active \<and> end_override (ctxs w' j) = Some q"
    proof (cases "j = ?k")
      case True
      with m nokid have "q = c" by (auto simp: kids' split: if_splits)
      with True assms(2) show ?thesis by (simp add: st' ov' nx')
    next
      case False
      with m have "j \<in> set (kids w q)" by (auto simp: kids' split: if_splits)
      from tree_inv_kid [OF assms(1) this] False show ?thesis by (simp add: st' ov' nx')
    qed
  next
    fix q show "distinct (kids w' q)"
      using tree_inv_distinct [OF assms(1), of q] nokid [of c] by (auto simp: kids')
  next
    fix j q assume a: "end_override (ctxs w' j) = Some q" "st w' j = Active"
    show "j \<in> set (kids w' q)"
    proof (cases "j = ?k")
      case True
      with a show ?thesis by (simp add: ov' kids')
    next
      case False
      with a have "end_override (ctxs w j) = Some q" "st w j = Active" by (simp_all add: ov' st')
      from tree_inv_listed [OF assms(1) this] have m: "j \<in> set (kids w q)" .
      with nokids have "q \<noteq> ?k" by auto
      with m show ?thesis by (auto simp: kids')
    qed
  qed
qed

lemma tree_inv_observe:
  assumes "tree_inv w" "observe w c v = Inr (w', u)"
  shows "tree_inv w'"
proof (rule tree_inv_same [OF assms(1)])
  show "next_id w' = next_id w"
    using assms(2) by (auto simp: observe_def split: option.splits jsval.splits if_splits)
  fix x
  show "kids w' x = kids w x \<and> st w' x = st w x \<and>
        end_override (ctxs w' x) = end_override (ctxs w x)"
    using assms(2) by (auto simp: observe_def split: option.splits jsval.splits if_splits)
qed

lemma tree_inv_unsubscribe:
  assumes "tree_inv w" "unsubscribe w c ob = Inr w'"
  shows "tree_inv w'"
proof (rule tree_inv_same [OF assms(1)])
  show "next_id w' = next_id w"
    using assms(2) by (auto simp: unsubscribe_def Let_def split: option.splits if_splits)
  fix x
  show "kids w' x = kids w x \<and> st w' x = st w x \<and>
        end_override (ctxs w' x) = end_override (ctxs w x)"
    using assms(2) by (auto simp: unsubscribe_def Let_def split: option.splits if_splits)
qed

lemma tree_inv_store:
  assumes "tree_inv w"
  shows "tree_inv (fst (store w c v))"
proof (rule tree_inv_same [OF assms(1)])
  show "next_id (fst (store w c v)) = next_id w"
    by (cases v) (simp_all add: store_def)
  fix x
  show "kids (fst (store w c v)) x = kids w x \<and> st (fst (store w c v)) x = st w x \<and>
        end_override (ctxs (fst (store w c v)) x) = end_override (ctxs w x)"
    by (cases v) (simp_all add: store_def)
qed

lemma step_total:
  assumes "tree_inv w" "case x of NewChild c \<Rightarrow> c < next_id w | _ \<Rightarrow> True" "next_id w < n"
  shows "\<exists>w' t. step n w x = Some (w', t) \<and> tree_inv w' \<and> next_id w' \<le> Suc (next_id w)"
proof (cases x)
  case New
  then show ?thesis using tree_inv_Context_new [OF assms(1), of None]
    by (simp add: Context_new_def Let_def)
next
  case (NewChild c)
  show ?thesis
  proof (cases "newChild w c")
    case (Inl e)
    with NewChild assms(1) show ?thesis by simp
  next
    case (Inr r)
    obtain w1 k where r: "r = (w1, k)" by (cases r)
    from assms(2) NewChild have "c < next_id w" by simp
    from tree_inv_newChild [OF assms(1) this Inr [unfolded r]] have "tree_inv w1" .
    moreover have "next_id w1 = Suc (next_id w)"
      using Inr r by (auto simp: newChild_def Context_new_def Let_def split: option.splits)
    ultimately show ?thesis using NewChild Inr r by simp
  qed
next
  case (Store c v)
  have "next_id (fst (store w c v)) = next_id w" by (cases v) (simp_all add: store_def)
  with Store tree_inv_store [OF assms(1), of c v] show ?thesis by simp
next
  case (Observe c v)
  show ?thesis
  proof (cases "observe w c v")
    case (Inl e)
    with Observe assms(1) show ?thesis by simp
  next
    case (Inr r)
    obtain w1 u where r: "r = (w1, u)" by (cases r)
    from tree_inv_observe [OF assms(1) Inr [unfolded r]] have "tree_inv w1" .
    moreover have "next_id w1 = next_id w"
      using Inr r by (auto simp: observe_def split: option.splits jsval.splits if_splits)
    ultimately show ?thesis using Observe Inr r by simp
  qed
next
  case (Unsubscribe c ob)
  show ?thesis
  proof (cases "unsubscribe w c ob")
    case (Inl e)
    with Unsubscribe assms(1) show ?thesis by simp
  next
    case (Inr w1)
    from tree_inv_unsubscribe [OF assms(1) Inr] have "tree_inv w1" .
    moreover have "next_id w1 = next_id w"
      using Inr by (auto simp: unsubscribe_def Let_def split: option.splits if_splits)
    ultimately show ?thesis using Unsubscribe Inr by simp
  qed
next
  case (Unwind c)
  from assms(3) have "next_id w - c \<le> n" by simp
  from total_all(2) [OF assms(1) this] obtain w1 t where
    u: "unwind n w c = Some (w1, t, c)" and "tree_inv w1" by blast
  moreover from ok_all(2) [OF u] have "next_id w1 = next_id w" by (simp add: ok_next_id)
  ultimately show ?thesis using Unwind by simp
next
  case (End c)
  from assms(3) have "next_id w - c < n" by simp
  from total_all(4) [OF assms(1) this] obtain w1 t where
    u: "end_method n w c = Some (w1, t)" and "tree_inv w1" by blast
  moreover from ok_all(4) [OF u] have "next_id w1 = next_id w" by (simp add: ok_next_id)
  ultimately show ?thesis using End by simp
next
  case (Dispose c)
  from assms(3) have "next_id w - c < n" by simp
  from total_all(4) [OF assms(1) this] obtain w1 t where
    u: "end_method n w c = Some (w1, t)" and "tree_inv w1" by blast
  moreover from ok_all(4) [OF u] have "next_id w1 = next_id w" by (simp add: ok_next_id)
  ultimately show ?thesis using Dispose by simp
qed

lemma run_total:
  "tree_inv w \<Longrightarrow> refs_ok n w xs \<Longrightarrow> next_id w + length xs \<le> n \<Longrightarrow>
     \<exists>w' t. run n w xs = Some (w', t) \<and> tree_inv w'"
proof (induction xs arbitrary: w)
  case Nil
  then show ?case by simp
next
  case (Cons x xs)
  from Cons.prems(2) have r: "case x of NewChild c \<Rightarrow> c < next_id w | _ \<Rightarrow> True" by simp
  from Cons.prems(3) have "next_id w < n" by simp
  from step_total [OF Cons.prems(1) r this] obtain w1 t1 where
    s: "step n w x = Some (w1, t1)" and inv1: "tree_inv w1" and nx: "next_id w1 \<le> Suc (next_id w)"
    by blast
  from Cons.prems(2) s have r1: "refs_ok n w1 xs" by simp
  from nx Cons.prems(3) have "next_id w1 + length xs \<le> n" by simp
  from Cons.IH [OF inv1 r1 this] s show ?case by auto
qed

section \<open>The example world\<close>

lemma run_family:
  "\<exists>w. run 10 world0 family_ops = Some (w, []) \<and> w = family"
  by (simp add: family_def family_ops_def world0_def Context_new_def newChild_def observe_def
      ensureActive_def Let_def upd_def)

lemma refs_ok_family: "refs_ok 10 world0 family_ops"
  by (simp add: family_ops_def world0_def Context_new_def newChild_def observe_def
      ensureActive_def Let_def upd_def)

lemma tree_inv_family: "tree_inv family"
proof -
  have "next_id world0 + length family_ops \<le> 10" by (simp add: world0_def family_ops_def)
  from run_total [OF tree_inv_world0 refs_ok_family this] run_family show ?thesis by auto
qed

lemma family_facts:
  "next_id family = 4"
  "kids family 0 = [1, 2]" "kids family 1 = [3]" "kids family 2 = []" "kids family 3 = []"
  "st family 0 = Active" "st family 1 = Active" "st family 2 = Active" "st family 3 = Active"
  "observers (ctxs family 0) = Some [7]" "observers (ctxs family 1) = Some [8]"
  "observers (ctxs family 2) = None" "observers (ctxs family 3) = None"
  "end_override (ctxs family 0) = None" "end_override (ctxs family 1) = Some 0"
  "end_override (ctxs family 2) = Some 0" "end_override (ctxs family 3) = Some 1"
  "parent (ctxs family 0) = None" "parent (ctxs family 1) = Some 0"
  "parent (ctxs family 2) = Some 0" "parent (ctxs family 3) = Some 1"
  by (simp_all add: family_def family_ops_def world0_def Context_new_def newChild_def observe_def
      ensureActive_def Let_def upd_def)

section \<open>A context that ends is \<open>Ended\<close>\<close>

lemma end_base_Ended:
  assumes "st w c = Active" "end_base n w c = Some (w', t)"
  shows "st w' c = Ended \<and> observers (ctxs w' c) = None"
proof (cases n)
  case 0
  with assms(2) show ?thesis by simp
next
  case (Suc m)
  with assms obtain w2 t2 r where
    "w' = upd (upd w2 c (\<lambda>x. x\<lparr>state := Ended\<rparr>)) c (\<lambda>x. x\<lparr>observers := None\<rparr>)"
    by (auto simp: Let_def split: option.splits)
  then show ?thesis by simp
qed

lemma end_method_Ended:
  assumes "tree_inv w" "st w c = Active" "end_method n w c = Some (w', t)"
  shows "st w' c = Ended \<and> observers (ctxs w' c) = None"
proof (cases "end_override (ctxs w c)")
  case None
  with assms(3) have "end_base n w c = Some (w', t)" by simp
  with assms(2) show ?thesis by (rule end_base_Ended)
next
  case (Some p)
  from tree_inv_listed [OF assms(1) Some assms(2)] have mem: "c \<in> set (kids w p)" .
  then have nn: "\<not> indexOf (kids w p) c < 0" by (simp add: indexOf_neg_iff)
  let ?w1 = "upd w p (\<lambda>x. x\<lparr>children := splice1 (children x) (indexOf (kids w p) c)\<rparr>)"
  from assms(3) Some nn obtain t2 where e: "end_base n ?w1 c = Some (w', t2)"
    by (auto simp: Let_def split: option.splits)
  have "st ?w1 c = Active" using assms(2) by auto
  from end_base_Ended [OF this e] show ?thesis .
qed

lemma family_ended_run: "\<exists>t. run 10 family [End 0] = Some (family_ended, t) \<and> tree_inv family_ended"
proof -
  have "refs_ok 10 family [End 0]" by (simp split: option.splits)
  moreover have "next_id family + length [End 0 :: op] \<le> 10" by (simp add: family_facts)
  ultimately obtain w' t where r: "run 10 family [End 0] = Some (w', t)" and i: "tree_inv w'"
    using run_total [OF tree_inv_family, of 10 "[End 0]"] by blast
  from r have "family_ended = w'" by (simp add: family_ended_def)
  with r i show ?thesis by simp
qed

lemma family_ended_root: "st family_ended 0 = Ended \<and> observers (ctxs family_ended 0) = None"
proof -
  from family_ended_run obtain t where "run 10 family [End 0] = Some (family_ended, t)" by blast
  then have "end_method 10 family 0 = Some (family_ended, t)"
    by (auto split: option.splits)
  from end_method_Ended [OF tree_inv_family _ this] show ?thesis by (simp add: family_facts)
qed

section \<open>Creating a child\<close>

text \<open>
  Claim C3.  For a constructed context \<open>p\<close> whose state is \<open>Active\<close>, \<^verbatim>\<open>p.newChild()\<close>
  returns a context with a fresh identity whose parent is \<open>p\<close>, whose state is \<open>Active\<close>
  and which has no children; right after the call it is in \<open>p\<close>'s children, appended as
  the last element, the children of before keeping their order.
\<close>

theorem newChild_appends:
  assumes "st w p = Active" "p < next_id w"
  shows "\<exists>w' k. newChild w p = Inr (w', k) \<and> k = next_id w \<and> next_id w' = Suc k \<and>
           parent (ctxs w' k) = Some p \<and> st w' k = Active \<and> kids w' k = [] \<and>
           k \<in> set (kids w' p) \<and> kids w' p = kids w p @ [k]"
  using assms by (simp add: newChild_Active Context_new_def Let_def)

theorem newChild_appends_witness:
  "st family 0 = Active \<and> 0 < next_id family \<and>
   (\<exists>w' k. newChild family 0 = Inr (w', k) \<and> k = next_id family \<and> next_id w' = Suc k \<and>
           parent (ctxs w' k) = Some 0 \<and> st w' k = Active \<and> kids w' k = [] \<and>
           k \<in> set (kids w' 0) \<and> kids w' 0 = kids family 0 @ [k])"
proof -
  have a: "st family 0 = Active" and b: "0 < next_id family" by (simp_all add: family_facts)
  from newChild_appends [OF a b] a b show ?thesis by simp
qed

section \<open>Operations on a context that is not active\<close>

text \<open>
  Claim C7.  On a context whose state is not \<open>Active\<close>, \<^verbatim>\<open>newChild()\<close> raises the
  error ``The context has already ended.'' and so does \<^verbatim>\<open>observe(observer)\<close>, whatever
  the observer; the raise comes before any assignment, so no child is created and
  nothing is registered.
\<close>

theorem not_Active_raises:
  assumes "st w c \<noteq> Active"
  shows "newChild w c = Inl (Error ''The context has already ended.'') \<and>
         observe w c observer = Inl (Error ''The context has already ended.'')"
  using assms by (simp add: newChild_def observe_def ensureActive_def)

theorem not_Active_raises_witness:
  "st family_ended 0 \<noteq> Active \<and>
   newChild family_ended 0 = Inl (Error ''The context has already ended.'') \<and>
   observe family_ended 0 (Obj 9) = Inl (Error ''The context has already ended.'')"
proof -
  have a: "st family_ended 0 \<noteq> Active" by (simp add: family_ended_root)
  from not_Active_raises [OF a, of "Obj 9"] a show ?thesis by simp
qed

section \<open>Storing\<close>

text \<open>
  Claim C10.  \<^verbatim>\<open>store(object)\<close> never looks at the state and never raises: in every
  state it returns the receiving context; for \<^verbatim>\<open>null\<close> and \<^verbatim>\<open>undefined\<close> the world is
  unchanged, and any other object is registered with the context, whose state
  stays as it was.
\<close>

theorem store_any_state:
  "snd (store w c object) = c \<and>
   (object = Undefined \<or> object = Null \<longrightarrow> fst (store w c object) = w) \<and>
   (\<forall>a. object = Obj a \<longrightarrow>
      provided (ctxs (fst (store w c object)) c) = provided (ctxs w c) @ [a] \<and>
      st (fst (store w c object)) c = st w c)"
  by (cases object) (simp_all add: store_def)

theorem store_any_state_witness:
  "st family_ended 0 = Ended \<and>
   snd (store family_ended 0 (Obj 5)) = 0 \<and>
   provided (ctxs (fst (store family_ended 0 (Obj 5))) 0) = provided (ctxs family_ended 0) @ [5] \<and>
   st (fst (store family_ended 0 (Obj 5))) 0 = Ended \<and>
   fst (store family_ended 0 Null) = family_ended"
  using store_any_state [of family_ended 0 "Obj 5"] store_any_state [of family_ended 0 Null]
    family_ended_root by simp

section \<open>Unsubscribing\<close>

lemma unsubscribe_removes:
  assumes "observers (ctxs w c) = Some os"
  shows "\<exists>w'. unsubscribe w c ob = Inr w' \<and> observers (ctxs w' c) = Some (remove1 ob os) \<and>
           st w' = st w \<and> kids w' = kids w"
proof (cases "indexOf os ob < 0")
  case True
  then have "ob \<notin> set os" by (simp add: indexOf_neg_iff)
  then have "remove1 ob os = os" by (simp add: remove1_idem)
  with True assms show ?thesis by (simp add: unsubscribe_def Let_def)
next
  case False
  then have "ob \<in> set os" by (simp add: indexOf_neg_iff)
  then have "splice1 os (indexOf os ob) = remove1 ob os" by (rule splice1_indexOf)
  with False assms show ?thesis by (auto simp: unsubscribe_def Let_def)
qed

lemma unsubscribe_null:
  "observers (ctxs w c) = None \<Longrightarrow>
     unsubscribe w c ob = Inl (TypeError ''Cannot read properties of null (reading indexOf)'')"
  by (simp add: unsubscribe_def)

text \<open>
  Claim C9.  The unsubscribe function returned by \<^verbatim>\<open>observe\<close> is claimed never to
  raise.  It does: \<^verbatim>\<open>end\<close> assigns \<^verbatim>\<open>null\<close> to \<^verbatim>\<open>_observers\<close>, and the closure then
  evaluates \<^verbatim>\<open>_observers.indexOf(observer)\<close>.  Here a fresh root is observed by \<open>7\<close>,
  ended, and the unsubscribe function of \<open>7\<close> is called.
\<close>

theorem unsubscribe_after_end_raises:
  "\<exists>w1 w2 t. observe (fst (Context_new world0 None)) 0 (Obj 7) = Inr (w1, Some 7) \<and>
      end_method (Suc 0) w1 0 = Some (w2, t) \<and>
      t = [StateSet 0 Ending, Notified 7 contextEnding 0, StateSet 0 Ended,
           Notified 7 contextEnded 0] \<and>
      unsubscribe w2 0 7 =
        Inl (TypeError ''Cannot read properties of null (reading indexOf)'')"
  by (simp add: observe_def ensureActive_def Context_new_def world0_def Let_def makeNotifier_def
      unsubscribe_def)

section \<open>Unwinding ends every child\<close>





section \<open>The base end sequence\<close>






section \<open>The end of a child\<close>

text \<open>
  When no observer calls back, the \<^verbatim>\<open>end\<close> that \<^verbatim>\<open>newChild\<close> installs on \<open>c\<close>, called
  while \<open>c\<close> is in \<open>p\<close>'s children, tells the observers \<open>p\<close> has at that moment
  \<^verbatim>\<open>childContextEnding(c)\<close>, removes \<open>c\<close> from \<open>p\<close>'s children, runs the base end of
  \<open>c\<close>, and tells the same observers \<^verbatim>\<open>childContextEnded(c)\<close>; afterwards \<open>c\<close> is
  \<open>Ended\<close> and not among \<open>p\<close>'s children.  When \<open>c\<close> is not in \<open>p\<close>'s children the
  call changes nothing and tells nobody.
\<close>

lemma child_end_quiet:
  assumes "tree_inv w" "end_override (ctxs w c) = Some p" "next_id w - c < n"
  shows "(c \<in> set (kids w p) \<longrightarrow>
           (\<exists>w2 t2.
              end_base n (upd w p (\<lambda>x. x\<lparr>children := remove1 c (children x)\<rparr>)) c = Some (w2, t2) \<and>
              end_method n w c =
                Some (w2, notify (observers (ctxs w p)) childContextEnding c @ t2 @
                          notify (observers (ctxs w p)) childContextEnded c) \<and>
              writes c t2 = [Ending, Ended] \<and> st w2 c = Ended \<and> c \<notin> set (kids w2 p))) \<and>
         (c \<notin> set (kids w p) \<longrightarrow> end_method n w c = Some (w, []))"
proof (intro conjI impI)
  assume mem: "c \<in> set (kids w p)"
  then have nn: "\<not> indexOf (kids w p) c < 0" by (simp add: indexOf_neg_iff)
  let ?w1 = "upd w p (\<lambda>x. x\<lparr>children := remove1 c (children x)\<rparr>)"
  have eq: "upd w p (\<lambda>x. x\<lparr>children := splice1 (children x) (indexOf (kids w p) c)\<rparr>) = ?w1"
    using mem by (simp add: upd_def splice1_indexOf)
  have d: "detached c ?w1" using assms(1,2) mem by (rule tree_inv_splice)
  have fuel: "next_id ?w1 - c < n" using assms(3) by simp
  from total_all(1) [OF d fuel] obtain w2 t2 where
    e: "end_base n ?w1 c = Some (w2, t2)" and inv2: "tree_inv w2" by blast
  from tree_inv_kid [OF assms(1) mem] have "st w c = Active" by simp
  then have act: "st ?w1 c = Active" by auto
  from end_base_Ended [OF act e] have ended: "st w2 c = Ended" by simp
  then have "st w2 c \<noteq> Active" by simp
  from tree_inv_not_child [OF inv2 this] have gone: "c \<notin> set (kids w2 p)" .
  from ok_cases [OF ok_all(1) [OF e], of c] act ended have wr: "writes c t2 = [Ending, Ended]"
    by auto
  from e nn assms(2) have "end_method n w c =
                Some (w2, notify (observers (ctxs w p)) childContextEnding c @ t2 @
                          notify (observers (ctxs w p)) childContextEnded c)"
    by (simp add: Let_def eq makeNotifier_def)
  with e wr ended gone show "\<exists>w2 t2.
              end_base n ?w1 c = Some (w2, t2) \<and>
              end_method n w c =
                Some (w2, notify (observers (ctxs w p)) childContextEnding c @ t2 @
                          notify (observers (ctxs w p)) childContextEnded c) \<and>
              writes c t2 = [Ending, Ended] \<and> st w2 c = Ended \<and> c \<notin> set (kids w2 p)"
    by blast
next
  assume "c \<notin> set (kids w p)"
  then have "indexOf (kids w p) c < 0" by (simp add: indexOf_neg_iff)
  with assms(2) show "end_method n w c = Some (w, [])" by (simp add: Let_def)
qed

section \<open>The state only moves forward\<close>

lemma step_lifecycle:
  assumes "step n w x = Some (w', t)" "c < next_id w"
  shows "((st w' c = st w c \<and> writes c t = []) \<or>
          (st w c = Active \<and> st w' c = Ended \<and> writes c t = [Ending, Ended])) \<and>
         next_id w \<le> next_id w'"
proof (cases x)
  case New
  with assms show ?thesis by (auto simp: Context_new_def Let_def)
next
  case (NewChild p)
  show ?thesis
  proof (cases "st w p = Active")
    case True
    from assms NewChild newChild_Active [OF True] show ?thesis
      by (auto simp: Context_new_def Let_def)
  next
    case False
    with assms NewChild show ?thesis by (simp add: newChild_not_Active)
  qed
next
  case (Store p v)
  with assms show ?thesis by (cases v) (auto simp: store_def)
next
  case (Observe p v)
  with assms show ?thesis
    by (auto simp: observe_def split: option.splits jsval.splits if_splits)
next
  case (Unsubscribe p ob)
  with assms show ?thesis
    by (auto simp: unsubscribe_def Let_def split: option.splits if_splits)
next
  case (Unwind p)
  with assms obtain r where "unwind n w p = Some (w', t, r)" by (auto split: option.splits)
  from ok_all(2) [OF this] have ok: "ok w w' t" by simp
  from ok_cases [OF ok, of c] ok_next_id [OF ok] show ?thesis by auto
next
  case (End p)
  with assms have "end_method n w p = Some (w', t)" by simp
  from ok_all(4) [OF this] have ok: "ok w w' t" .
  from ok_cases [OF ok, of c] ok_next_id [OF ok] show ?thesis by auto
next
  case (Dispose p)
  with assms have "end_method n w p = Some (w', t)" by simp
  from ok_all(4) [OF this] have ok: "ok w w' t" .
  from ok_cases [OF ok, of c] ok_next_id [OF ok] show ?thesis by auto
qed

lemma run_forward:
  "run n w xs = Some (w', t) \<Longrightarrow> c < next_id w \<Longrightarrow>
     forward (st w c # writes c t) \<and> st w' c = last (st w c # writes c t)"
proof (induction xs arbitrary: w t)
  case Nil
  then show ?case by simp
next
  case (Cons x xs)
  from Cons.prems(1) obtain w1 t1 t2 where
    s: "step n w x = Some (w1, t1)" and r: "run n w1 xs = Some (w', t2)" and t: "t = t1 @ t2"
    by (auto split: option.splits)
  from step_lifecycle [OF s Cons.prems(2)] have
    d: "(st w1 c = st w c \<and> writes c t1 = []) \<or>
        (st w c = Active \<and> st w1 c = Ended \<and> writes c t1 = [Ending, Ended])"
    and nx: "next_id w \<le> next_id w1" by simp_all
  from nx Cons.prems(2) have "c < next_id w1" by simp
  from Cons.IH [OF r this] have
    IH: "forward (st w1 c # writes c t2)" "st w' c = last (st w1 c # writes c t2)" by simp_all
  from d show ?case
  proof
    assume "st w1 c = st w c \<and> writes c t1 = []"
    with IH show ?thesis by (simp add: t)
  next
    assume "st w c = Active \<and> st w1 c = Ended \<and> writes c t1 = [Ending, Ended]"
    with IH show ?thesis by (simp add: t)
  qed
qed

text \<open>A dispatch assigns pending axis tags and nothing else; the state stays.\<close>

lemma dispatch_keeps_state:
  "handleCallback n hb tn w c g = Some (b, w', l) \<Longrightarrow> \<forall>x. st w' x = st w x"
  "handle n hb tn w c g = Some (b, w', l) \<Longrightarrow> \<forall>x. st w' x = st w x"
  "handleAxis n hb tn w c a g = Some (b, w', l) \<Longrightarrow> \<forall>x. st w' x = st w x"
  "visit n hb tn this g nodes h w iv = Some (b, w', l) \<Longrightarrow> \<forall>x. st w' x = st w x"
proof (induction n hb tn w c g and n hb tn w c g and n hb tn w c a g and n hb tn this g nodes h w iv
       arbitrary: b w' l and b w' l and b w' l and b w' l
       rule: handleCallback_handle_handleAxis_visit.induct)
  case (1 hb tn w this greedy)
  then show ?case by simp
next
  case (2 n hb tn w this greedy)
  show ?case
  proof (cases "axis (ctxs w this)")
    case None
    show ?thesis
    proof (cases "hb this greedy \<and> \<not> greedy")
      case True
      with None "2.prems" show ?thesis by (auto simp: Let_def)
    next
      case False
      show ?thesis
      proof (cases "parent (ctxs w this)")
        case pn: None
        with None False "2.prems" show ?thesis by (auto simp: Let_def)
      next
        case (Some p)
        with None False "2.prems" obtain r iv where
          h: "handle n hb tn w p greedy = Some (r, w', iv)"
          by (auto simp: Let_def split: option.splits)
        from "2.IH"(1) [OF None refl False Some h] show ?thesis .
      qed
    qed
  next
    case (Some a)
    show ?thesis
    proof (cases "a = Self")
      case True
      with Some "2.prems" show ?thesis by (auto simp: Let_def)
    next
      case False
      with Some "2.prems" have
        v: "visit n hb tn this greedy (tn a this) False (upd w this (\<lambda>x. x\<lparr>axis := None\<rparr>)) []
              = Some (b, w', l)"
        by (simp add: Let_def)
      from "2.IH"(2) [OF Some refl False v] show ?thesis by auto
    qed
  qed
next
  case (3 n hb tn w c greedy)
  then show ?case by simp
next
  case (4 n hb tn w c a greedy)
  from "4.prems" have "handle n hb tn (upd w c (\<lambda>x. x\<lparr>axis := Some a\<rparr>)) c greedy = Some (b, w', l)"
    by simp
  from "4.IH" [OF this] show ?case by auto
next
  case (5 n hb tn this greedy handled w invoked)
  then show ?case by simp
next
  case (6 n hb tn this greedy node rest handled w invoked)
  from "6.prems" obtain r w1 l1 where
    v: "(if node = this then Some (hb this greedy, w, [this])
         else handleAxis n hb tn w node Self greedy) = Some (r, w1, l1)"
    by (auto split: option.splits)
  have s1: "\<forall>x. st w1 x = st w x"
  proof (cases "node = this")
    case True
    with v show ?thesis by simp
  next
    case False
    with v have "handleAxis n hb tn w node Self greedy = Some (r, w1, l1)" by simp
    from "6.IH"(1) [OF False this] show ?thesis .
  qed
  show ?case
  proof (cases "(handled \<or> r) \<and> \<not> greedy")
    case True
    with v "6.prems" s1 show ?thesis by (auto simp: Let_def split: if_splits)
  next
    case False
    with v "6.prems" have
      "visit n hb tn this greedy rest (handled \<or> r) w1 (invoked @ l1) = Some (b, w', l)"
      by (auto simp: Let_def split: if_splits)
    from "6.IH"(2) [OF v refl refl refl False this] s1 show ?thesis by simp
  qed
qed

lemma refs_ok_ends: "refs_ok n w [End a, End b, Dispose d]"
  by (simp split: option.splits)

text \<open>
  Claim C2.  Take any world, any sequence of operations on its contexts, and any context
  \<open>c\<close> constructed before the sequence starts.  The state \<open>c\<close> has at the start,
  followed by the states assigned to \<open>c\<close> during the sequence, is a history in which each
  state is followed by its successor in \<open>Active\<close>, \<open>Ending\<close>, \<open>Ended\<close>: the state never
  goes back and never becomes \<open>Ended\<close> without having been \<open>Ending\<close>; and the state
  at the end is the last one of that history.  A context constructed during the sequence
  is covered from the operation after its construction on.  A dispatch, with or without
  an axis, leaves every state as it is.  On the worlds that construction and the
  operations produce, a sequence with enough fuel returns.
\<close>

theorem state_moves_forward:
  "(run n w xs = Some (w', t) \<longrightarrow> c < next_id w \<longrightarrow>
      forward (st w c # writes c t) \<and> st w' c = last (st w c # writes c t)) \<and>
   (handle n hb tn w d greedy = Some (b, w2, l) \<longrightarrow> st w2 c = st w c) \<and>
   (handleAxis n hb tn w d a greedy = Some (b, w3, l') \<longrightarrow> st w3 c = st w c) \<and>
   (tree_inv w \<longrightarrow> refs_ok n w xs \<longrightarrow> next_id w + length xs \<le> n \<longrightarrow> run n w xs \<noteq> None)"
proof (intro conjI impI)
  assume "run n w xs = Some (w', t)" "c < next_id w"
  then show "forward (st w c # writes c t)" "st w' c = last (st w c # writes c t)"
    by (simp_all add: run_forward)
next
  assume "handle n hb tn w d greedy = Some (b, w2, l)"
  from dispatch_keeps_state(2) [OF this] show "st w2 c = st w c" by simp
next
  assume "handleAxis n hb tn w d a greedy = Some (b, w3, l')"
  from dispatch_keeps_state(3) [OF this] show "st w3 c = st w c" by simp
next
  assume "tree_inv w" "refs_ok n w xs" "next_id w + length xs \<le> n"
  from run_total [OF this] show "run n w xs \<noteq> None" by auto
qed

theorem state_moves_forward_witness:
  "tree_inv family \<and> refs_ok 10 family [End 1, End 0, Dispose 1] \<and>
   next_id family + length [End 1, End 0, Dispose 1] \<le> 10 \<and> 1 < next_id family \<and>
   st family 1 = Active \<and>
   (\<exists>w' t. run 10 family [End 1, End 0, Dispose 1] = Some (w', t) \<and>
      forward (Active # writes 1 t) \<and> st w' 1 = last (Active # writes 1 t))"
proof -
  have r: "refs_ok 10 family [End 1, End 0, Dispose 1]" by (rule refs_ok_ends)
  have l: "next_id family + length [End 1, End 0, Dispose 1] \<le> 10"
    using family_facts(1) by simp
  have c: "1 < next_id family" using family_facts(1) by simp
  have a: "st family 1 = Active" by (rule family_facts)
  from run_total [OF tree_inv_family r l] obtain w' t where
    e: "run 10 family [End 1, End 0, Dispose 1] = Some (w', t)" by blast
  from state_moves_forward [of 10 family "[End 1, End 0, Dispose 1]" w' t 1] e c a
  have "forward (Active # writes 1 t) \<and> st w' 1 = last (Active # writes 1 t)" by simp
  with e tree_inv_family r l c a show ?thesis by blast
qed

section \<open>Dispatch\<close>

lemma handleCallback_Self:
  "axis (ctxs w c) = Some Self \<Longrightarrow>
     handleCallback (Suc n) hb tn w c greedy =
       Some (hb c greedy, upd w c (\<lambda>x. x\<lparr>axis := None\<rparr>), [c])"
  by (simp add: Let_def)

lemma handleAxis_Self:
  "handleAxis (Suc n) hb tn w c Self greedy =
     Some (hb c greedy,
           upd (upd w c (\<lambda>x. x\<lparr>axis := Some Self\<rparr>)) c (\<lambda>x. x\<lparr>axis := None\<rparr>), [c])"
  by (simp add: Let_def)

lemma handleCallback_untagged:
  "axis (ctxs w c) = None \<Longrightarrow>
     handleCallback (Suc n) hb tn w c greedy =
       (if hb c greedy \<and> \<not> greedy then Some (True, w, [c])
        else case parent (ctxs w c) of
               None \<Rightarrow> Some (hb c greedy, w, [c])
             | Some p \<Rightarrow>
                 (case handleCallback n hb tn w p greedy of
                    None \<Rightarrow> None
                  | Some (r, w1, invoked) \<Rightarrow> Some (hb c greedy \<or> r, w1, c # invoked)))"
  by (cases greedy; cases "parent (ctxs w c)") (auto simp: Let_def split: option.splits)

lemma handleCallback_tagged:
  "axis (ctxs w c) = Some a \<Longrightarrow> a \<noteq> Self \<Longrightarrow>
     handleCallback (Suc n) hb tn w c greedy =
       visit n hb tn c greedy (tn a c) False (upd w c (\<lambda>x. x\<lparr>axis := None\<rparr>)) []"
  by (simp add: Let_def)

lemma upto_first_butlast: "\<forall>x\<in>set (butlast (upto_first P xs)). \<not> P x"
  by (induction xs) auto

lemma upto_first_Nil [simp]: "upto_first P xs = [] \<longleftrightarrow> xs = []"
  by (cases xs) auto

lemma upto_first_last: "(\<exists>x\<in>set xs. P x) \<Longrightarrow> P (last (upto_first P xs))"
  by (induction xs) auto

lemma upto_first_none: "\<not> (\<exists>x\<in>set xs. P x) \<Longrightarrow> upto_first P xs = xs"
  by (induction xs) auto

lemma visit_result:
  assumes "greedy \<or> \<not> handled"
  shows "\<exists>w'. visit (Suc m) hb tn this greedy nodes handled w invoked =
           Some (handled \<or> (\<exists>x\<in>set nodes. hb x greedy), w',
                 invoked @ (if greedy then nodes else upto_first (\<lambda>x. hb x greedy) nodes))"
  using assms
proof (induction nodes arbitrary: handled w invoked)
  case Nil
  then show ?case by simp
next
  case (Cons node rest)
  obtain w1 where
    v: "(if node = this then Some (hb this greedy, w, [this])
         else handleAxis (Suc m) hb tn w node Self greedy) = Some (hb node greedy, w1, [node])"
    by (cases "node = this") (simp_all add: Let_def)
  show ?case
  proof (cases "(handled \<or> hb node greedy) \<and> \<not> greedy")
    case True
    with Cons.prems have "hb node greedy" "\<not> greedy" by auto
    with v True show ?thesis
      by (simp only: visit.simps Let_def) auto
  next
    case False
    then have pre: "greedy \<or> \<not> (handled \<or> hb node greedy)" by auto
    from Cons.IH [OF pre, of w1 "invoked @ [node]"] obtain w' where
      r: "visit (Suc m) hb tn this greedy rest (handled \<or> hb node greedy) w1 (invoked @ [node]) =
           Some ((handled \<or> hb node greedy) \<or> (\<exists>x\<in>set rest. hb x greedy), w',
                 (invoked @ [node]) @
                 (if greedy then rest else upto_first (\<lambda>x. hb x greedy) rest))"
      by blast
    from v False r show ?thesis
      by (simp only: visit.simps Let_def) auto
  qed
qed

lemma handleCallback_refines:
  "axis_handlers n tn w c = Some hs \<Longrightarrow>
     \<exists>w'. handleCallback (Suc n) hb tn w c greedy =
        Some ((\<exists>x\<in>set hs. hb x greedy), w',
              (if greedy then hs else upto_first (\<lambda>x. hb x greedy) hs))"
proof (induction n arbitrary: c hs)
  case 0
  then show ?case by simp
next
  case (Suc m)
  show ?case
  proof (cases "axis (ctxs w c)")
    case None
    show ?thesis
    proof (cases "parent (ctxs w c)")
      case pn: None
      with None Suc.prems have "hs = [c]" by simp
      with pn show ?thesis unfolding handleCallback_untagged [OF None] by simp
    next
      case (Some p)
      with None Suc.prems obtain hs' where
        a: "axis_handlers m tn w p = Some hs'" and hs: "hs = c # hs'"
        by (auto split: option.splits)
      from Suc.IH [OF a] obtain w' where
        r: "handleCallback (Suc m) hb tn w p greedy =
              Some ((\<exists>x\<in>set hs'. hb x greedy), w',
                    (if greedy then hs' else upto_first (\<lambda>x. hb x greedy) hs'))" by blast
      show ?thesis
      proof (cases "hb c greedy \<and> \<not> greedy")
        case True
        with hs show ?thesis unfolding handleCallback_untagged [OF None] by auto
      next
        case False
        with Some hs r show ?thesis unfolding handleCallback_untagged [OF None] by auto
      qed
    qed
  next
    case (Some a)
    show ?thesis
    proof (cases "a = Self")
      case True
      with Some Suc.prems have hs: "hs = [c]" by simp
      from Some True have ax: "axis (ctxs w c) = Some Self" by simp
      from hs show ?thesis unfolding handleCallback_Self [OF ax] by simp
    next
      case False
      with Some Suc.prems have hs: "hs = tn a c" by simp
      from visit_result [of greedy False m hb tn c "tn a c" "upd w c (\<lambda>x. x\<lparr>axis := None\<rparr>)" "[]"]
      obtain w' where
        "visit (Suc m) hb tn c greedy (tn a c) False (upd w c (\<lambda>x. x\<lparr>axis := None\<rparr>)) [] =
           Some ((\<exists>x\<in>set (tn a c). hb x greedy), w',
                 (if greedy then tn a c else upto_first (\<lambda>x. hb x greedy) (tn a c)))"
        by auto
      with hs show ?thesis unfolding handleCallback_tagged [OF Some False] by simp
    qed
  qed
qed

lemma axis_handlers_total:
  "parents_older w \<Longrightarrow> c < n \<Longrightarrow> \<exists>hs. axis_handlers n tn w c = Some hs"
proof (induction n arbitrary: c)
  case 0
  then show ?case by simp
next
  case (Suc m)
  show ?case
  proof (cases "parent (ctxs w c)")
    case None
    then show ?thesis by (simp split: option.splits)
  next
    case (Some p)
    with Suc.prems(1) have "p < c" by (simp add: parents_older_def)
    with Suc.prems(2) have "p < m" by simp
    from Suc.IH [OF Suc.prems(1) this] Some show ?thesis by (auto split: option.splits)
  qed
qed

lemma parents_older_family: "parents_older family"
  unfolding parents_older_def
proof (intro allI impI)
  fix c p assume a: "parent (ctxs family c) = Some p"
  have "c = 1 \<or> c = 2 \<or> c = 3 \<or> parent (ctxs family c) = None"
    by (simp add: family_def family_ops_def world0_def Context_new_def newChild_def observe_def
      ensureActive_def Let_def upd_def)
  with a family_facts(19-21) show "p < c" by auto
qed

text \<open>
  Claim C5.  Let \<open>hs\<close> be the handlers along the active axis of a dispatch at \<open>c\<close>.  The
  dispatch returns true exactly when one of them handles the callback.  With
  \<open>greedy = False\<close> the handlers invoked are those of \<open>hs\<close> up to and including the first
  that handles: none before the last one invoked has handled, and nothing after it is
  asked.  With \<open>greedy = True\<close> every handler of \<open>hs\<close> is invoked, parent chain or
  traversed nodes alike.
\<close>

theorem handle_first_or_all:
  assumes "parents_older w" "c < n"
  shows "\<exists>hs w' invoked.
           axis_handlers n tn w c = Some hs \<and>
           handleCallback (Suc n) hb tn w c greedy =
             Some ((\<exists>x\<in>set hs. hb x greedy), w', invoked) \<and>
           invoked = (if greedy then hs else upto_first (\<lambda>x. hb x greedy) hs) \<and>
           (\<not> greedy \<longrightarrow> (\<forall>x\<in>set (butlast invoked). \<not> hb x greedy) \<and>
                         ((\<exists>x\<in>set hs. hb x greedy) \<longrightarrow> hb (last invoked) greedy))"
proof -
  from axis_handlers_total [OF assms] obtain hs where a: "axis_handlers n tn w c = Some hs"
    by blast
  from handleCallback_refines [OF a] obtain w' where
    r: "handleCallback (Suc n) hb tn w c greedy =
        Some ((\<exists>x\<in>set hs. hb x greedy), w',
              (if greedy then hs else upto_first (\<lambda>x. hb x greedy) hs))" by blast
  have "\<not> greedy \<longrightarrow>
          (\<forall>x\<in>set (butlast (if greedy then hs else upto_first (\<lambda>x. hb x greedy) hs)).
              \<not> hb x greedy) \<and>
          ((\<exists>x\<in>set hs. hb x greedy) \<longrightarrow>
              hb (last (if greedy then hs else upto_first (\<lambda>x. hb x greedy) hs)) greedy)"
    using upto_first_butlast [of "\<lambda>x. hb x greedy" hs]
      upto_first_last [of hs "\<lambda>x. hb x greedy"] by (cases greedy) auto
  with a r show ?thesis by blast
qed

lemma family_axis_handlers: "axis_handlers 4 family_nodes family 3 = Some [3, 1, 0]"
  by code_simp

theorem handle_first_or_all_witness:
  "parents_older family \<and> 3 < (4::nat) \<and>
   axis_handlers 4 family_nodes family 3 = Some [3, 1, 0] \<and>
   (\<exists>w'. handleCallback (Suc 4) (\<lambda>c g. c = 1) family_nodes family 3 False =
            Some (True, w', [3, 1])) \<and>
   (\<exists>w'. handleCallback (Suc 4) (\<lambda>c g. c = 1) family_nodes family 3 True =
            Some (True, w', [3, 1, 0]))"
proof -
  have l: "3 < (4::nat)" by simp
  from handle_first_or_all [OF parents_older_family l, of family_nodes "\<lambda>c g. c = 1" False]
    handle_first_or_all [OF parents_older_family l, of family_nodes "\<lambda>c g. c = 1" True]
    parents_older_family family_axis_handlers
  show ?thesis by simp
qed

subsection \<open>The \<^verbatim>\<open>Self\<close> tag\<close>

text \<open>
  Claim C6 says that a dispatch with the pending tag \<^verbatim>\<open>Self\<close> gives the result and the
  handler invocations of the dispatch with no tag, parent chaining included.  On the
  example, with a callback only the root handles, the child \<open>1\<close> dispatching with no tag
  goes on to its parent and returns true; with the tag \<^verbatim>\<open>Self\<close> it asks its own
  handling only and returns false.
\<close>

theorem self_axis_counterexample:
  "outcome (handleAxis 5 root_handles family_nodes family 1 Self False) = Some (False, [1]) \<and>
   outcome (handle 5 root_handles family_nodes family 1 False) = Some (True, [1, 0])"
  by code_simp

text \<open>
  Claim C6, amended.  A dispatch with the pending tag \<^verbatim>\<open>Self\<close> clears the tag, invokes
  the context's own inherited handling and nothing else, and returns what it reports; it
  never goes on to the parent.  It shows the caller what the dispatch with no tag shows
  when the context has no parent, or when its own handling handles the callback and
  \<open>greedy\<close> is false.
\<close>

theorem self_axis_own_handling:
  "handleAxis (Suc n) hb tn w c Self greedy =
     Some (hb c greedy,
           upd (upd w c (\<lambda>x. x\<lparr>axis := Some Self\<rparr>)) c (\<lambda>x. x\<lparr>axis := None\<rparr>), [c]) \<and>
   (axis (ctxs w c) = None \<longrightarrow>
    parent (ctxs w c) = None \<or> (hb c greedy \<and> \<not> greedy) \<longrightarrow>
      outcome (handle (Suc n) hb tn w c greedy) =
      outcome (handleAxis (Suc n) hb tn w c Self greedy))"
  by (auto simp: Let_def outcome_def)

theorem self_axis_own_handling_witness:
  "axis (ctxs family 0) = None \<and> parent (ctxs family 0) = None \<and>
   outcome (handleAxis (Suc 4) root_handles family_nodes family 0 Self True) = Some (True, [0]) \<and>
   outcome (handle (Suc 4) root_handles family_nodes family 0 True) =
   outcome (handleAxis (Suc 4) root_handles family_nodes family 0 Self True)"
proof -
  have a: "axis (ctxs family 0) = None"
    by (simp add: family_def family_ops_def world0_def Context_new_def newChild_def observe_def
      ensureActive_def Let_def upd_def)
  have p: "parent (ctxs family 0) = None" by (rule family_facts)
  from self_axis_own_handling [of 4 root_handles family_nodes family 0 True] a p
  show ?thesis by (simp add: outcome_def root_handles_def)
qed

section \<open>The example, run\<close>

text \<open>
  Ending the root of the example with just enough fuel: the root's observer hears of the
  root and of both children, the observer of \<open>1\<close> hears of \<open>1\<close> and of its child \<open>3\<close>,
  and every child is \<open>Ended\<close> before its parent.
\<close>

lemma family_end_trace:
  "map_option snd (end_method 3 family 0) =
     Some [StateSet 0 Ending, Notified 7 contextEnding 0,
           Notified 7 childContextEnding 1, StateSet 1 Ending, Notified 8 contextEnding 1,
           Notified 8 childContextEnding 3, StateSet 3 Ending, StateSet 3 Ended,
           Notified 8 childContextEnded 3, StateSet 1 Ended, Notified 8 contextEnded 1,
           Notified 7 childContextEnded 1,
           Notified 7 childContextEnding 2, StateSet 2 Ending, StateSet 2 Ended,
           Notified 7 childContextEnded 2,
           StateSet 0 Ended, Notified 7 contextEnded 0]"
  by code_simp

lemma family_end_short_of_fuel: "end_method 2 family 0 = None"
  by code_simp

text \<open>Ending the root twice tells nobody anything the second time.\<close>

lemma family_end_twice:
  "map_option snd (run 10 family_ended [End 0, Dispose 0]) = Some []"
  by code_simp

text \<open>
  A traversal from the root along \<^verbatim>\<open>SelfOrDescendant\<close> for a callback only \<open>1\<close>
  handles: it stops at \<open>1\<close> unless greedy.
\<close>

lemma family_traversal:
  "outcome (handleAxis 5 (\<lambda>c g. c = 1) family_nodes family 0 SelfOrDescendant False)
     = Some (True, [0, 1])"
  "outcome (handleAxis 5 (\<lambda>c g. c = 1) family_nodes family 0 SelfOrDescendant True)
     = Some (True, [0, 1, 3, 2])"
  by code_simp+

section \<open>Observers that call back\<close>

lemma notify_re_quiet:
  "notify_re n quiet w os m c = Some (w, map (\<lambda>ob. Notified ob m c) os)"
  by (induction os) (simp_all add: quiet_def)

lemma notify_re_quiet_snapshot:
  "notify_re n quiet w (snapshot s) m c = Some (w, notify s m c)"
  by (cases s) (simp_all add: notify_re_quiet)

text \<open>With observers that do not call back, the functions above are those of the sections before.\<close>

lemma quiet_is_plain:
  "end_base_re n quiet w c = end_base n w c"
  "unwind_re n quiet w c = unwind n w c"
  "for_children_re n quiet w cs = for_children n w cs"
  "end_method_re n quiet w c = end_method n w c"
proof (induction n w c and n w c and n w cs and n w c
       rule: end_base_unwind_for_children_end_method.induct)
  case (1 w c)
  then show ?case by simp
next
  case (2 n w c)
  show ?case
  proof (cases "st w c = Active")
    case True
    from "2.IH" [OF True refl refl refl] have
      u: "unwind_re n quiet (upd w c (\<lambda>x. x\<lparr>state := Ending\<rparr>)) c =
          unwind n (upd w c (\<lambda>x. x\<lparr>state := Ending\<rparr>)) c" .
    show ?thesis
    proof (cases "unwind n (upd w c (\<lambda>x. x\<lparr>state := Ending\<rparr>)) c")
      case None
      with True u show ?thesis by (simp add: Let_def notify_re_quiet_snapshot)
    next
      case (Some res)
      obtain w2 t2 this where res: "res = (w2, t2, this)" by (cases res)
      with True u Some show ?thesis by (simp add: Let_def notify_re_quiet_snapshot)
    qed
  next
    case False
    then show ?thesis by simp
  qed
next
  case (3 n w c)
  then show ?case by simp
next
  case (4 n w)
  then show ?case by simp
next
  case (5 n w child rest)
  show ?case
  proof (cases "end_method n w child")
    case None
    with "5.IH"(1) show ?thesis by simp
  next
    case (Some res)
    obtain w1 t1 where res: "res = (w1, t1)" by (cases res)
    from "5.IH"(2) [OF Some [unfolded res] refl] "5.IH"(1) Some res show ?thesis by simp
  qed
next
  case (6 n w c)
  show ?case
  proof (cases "end_override (ctxs w c)")
    case None
    with "6.IH"(1) show ?thesis by simp
  next
    case (Some p)
    show ?thesis
    proof (cases "indexOf (kids w p) c < 0")
      case True
      with Some show ?thesis by (simp add: Let_def)
    next
      case False
      let ?w1 = "upd w p (\<lambda>x. x\<lparr>children := splice1 (children x) (indexOf (kids w p) c)\<rparr>)"
      from "6.IH"(2) [OF Some refl False refl refl refl] have
        e: "end_base_re n quiet ?w1 c = end_base n ?w1 c" .
      show ?thesis
      proof (cases "end_base n ?w1 c")
        case None
        with Some False e show ?thesis by (simp add: Let_def notify_re_quiet_snapshot)
      next
        case es: (Some res)
        obtain w2 t2 where res: "res = (w2, t2)" by (cases res)
        with Some False e es show ?thesis by (simp add: Let_def notify_re_quiet_snapshot)
      qed
    qed
  qed
qed

lemma stale_index_family:
  "map_option (\<lambda>(w, t). (kids w 0, st w 1, st w 2, t)) (end_method_re 4 meddler family 2) =
     Some ([2], Ended, Ended,
           [Notified 7 childContextEnding 2, Notified 7 childContextEnding 1,
            StateSet 1 Ending, Notified 8 contextEnding 1,
            Notified 8 childContextEnding 3, StateSet 3 Ending, StateSet 3 Ended,
            Notified 8 childContextEnded 3, StateSet 1 Ended,
            Notified 8 contextEnded 1, Notified 7 childContextEnded 1,
            StateSet 2 Ending, StateSet 2 Ended, Notified 7 childContextEnded 2])"
  by code_simp

lemma stale_index_trio:
  "map_option (\<lambda>(w, t). (kids w 0, st w 1, st w 2, st w 3, end_override (ctxs w 3)))
       (end_method_re 4 meddler trio 2) =
     Some ([2], Ended, Ended, Active, Some 0)"
  by code_simp

lemma plain_trio:
  "map_option (\<lambda>(w, t). (kids w 0, st w 1, st w 2, st w 3)) (end_method_re 4 quiet trio 2) =
     Some ([1, 3], Active, Ended, Active)"
  by code_simp

text \<open>
  Claim C4.  A child's \<^verbatim>\<open>end()\<close>, called while the child is in the parent's children,
  is claimed to notify the parent's observers, remove the child from the parent's
  children, run the base end and notify again.  The code finds the child's index, runs
  the parent's observers, and only then removes what is at that index.  Below, the
  observer \<open>7\<close> of the parent \<open>0\<close> ends child \<open>1\<close> when it is told that child \<open>2\<close> is
  ending.  With children \<open>1, 2\<close>, the call \<^verbatim>\<open>end()\<close> on \<open>2\<close> leaves \<open>2\<close> among the
  children of \<open>0\<close> although \<open>2\<close> is \<open>Ended\<close>.  With children \<open>1, 2, 3\<close>, it leaves
  \<open>2\<close> there as well and removes \<open>3\<close> instead, which is still \<open>Active\<close> and whose own
  \<^verbatim>\<open>end()\<close> from then on does nothing.
\<close>

theorem child_end_stale_index:
  "(\<exists>w t. end_method_re 4 meddler family 2 = Some (w, t) \<and>
          kids family 0 = [1, 2] \<and> kids w 0 = [2] \<and> st w 1 = Ended \<and> st w 2 = Ended) \<and>
   (\<exists>w t. end_method_re 4 meddler trio 2 = Some (w, t) \<and>
          kids w 0 = [2] \<and> st w 2 = Ended \<and> st w 3 = Active \<and>
          end_method_re 4 meddler w 3 = Some (w, []))"
proof
  from stale_index_family family_facts(2)
  show "\<exists>w t. end_method_re 4 meddler family 2 = Some (w, t) \<and>
          kids family 0 = [1, 2] \<and> kids w 0 = [2] \<and> st w 1 = Ended \<and> st w 2 = Ended"
    by auto
next
  from stale_index_trio obtain w t where
    e: "end_method_re 4 meddler trio 2 = Some (w, t)" and k: "kids w 0 = [2]"
    and s: "st w 2 = Ended" "st w 3 = Active" and o: "end_override (ctxs w 3) = Some 0"
    by auto
  from k have "indexOf (kids w 0) 3 < 0" by simp
  with o have "end_method_re 4 meddler w 3 = Some (w, [])" by (simp add: Let_def)
  with e k s show "\<exists>w t. end_method_re 4 meddler trio 2 = Some (w, t) \<and>
          kids w 0 = [2] \<and> st w 2 = Ended \<and> st w 3 = Active \<and>
          end_method_re 4 meddler w 3 = Some (w, [])"
    by blast
qed

end
